theory Spec2Isabelle
  imports Main "HOL-Library.Word" "HOL-Library.Signed_Division"
begin

section \<open>The garland firmware of \<^verbatim>\<open>src/main.cpp\<close>\<close>

text \<open>
  The target is an ATtiny10: \<^verbatim>\<open>int\<close> has 16 bits, so \<^verbatim>\<open>int\<close>, \<^verbatim>\<open>int16_t\<close> and
  \<^verbatim>\<open>uint16_t\<close> are all 16-bit words; a signed one is read with \<open>sint\<close>.
\<close>

type_synonym uint8_t = "8 word"
type_synonym uint16_t = "16 word"
type_synonym int16_t = "16 word"

text \<open>A read outside an array is undefined behaviour in C; the model makes it an error.\<close>

datatype error = OutOfBounds

definition at_index :: "'a list \<Rightarrow> int \<Rightarrow> error + 'a" where
  "at_index xs i = (if 0 \<le> i \<and> i < int (length xs) then Inr (xs ! nat i) else Inl OutOfBounds)"

text \<open>C's \<^verbatim>\<open>/\<close> and \<^verbatim>\<open>%\<close> on \<^verbatim>\<open>int\<close>: the quotient is truncated towards zero.\<close>

definition c_div :: "int16_t \<Rightarrow> int16_t \<Rightarrow> int16_t" where
  "c_div a b = word_of_int (sint a sdiv sint b)"

definition c_mod :: "int16_t \<Rightarrow> int16_t \<Rightarrow> int16_t" where
  "c_mod a b = word_of_int (sint a smod sint b)"

subsection \<open>Build-time tables (lines 14--32)\<close>

definition patterns :: "int16_t list list" where
  "patterns =
    [[500, - 500, 500, - 500, 1, 50, - 1, - 50, 1, 50, - 1, - 50, 1, 50, - 3000, - 2000, 0],
     [1, 500, - 1, - 500, 0],
     [4000, - 1, - 2000, 0],
     [1, 250, - 1, - 250, 0],
     [500, - 500, - 3000, 0],
     [1, 50, - 1, - 50, 0],
     [1, - 4000, - 2000, 0],
     [2000, - 1, - 100, 1, 100, - 1, - 100, 1, 100, - 1, - 100, 1, 100, - 1, - 100, 1,
      - 2000, - 3000, 0],
     [1000, - 1000, 0]]"

definition PATTERN_DURATION :: uint16_t where
  "PATTERN_DURATION = 30000"

definition accelerationPoints :: "uint8_t list" where
  "accelerationPoints = [0, 30, 60, 80, 10, 255]"

subsection \<open>The machine: tick counter, PWM compare register, and a log of what was done\<close>

text \<open>
  \<open>ticks\<close> is the volatile counter of line 35 and \<open>OCR0A\<close> the compare register written
  by \<^verbatim>\<open>setPwmDutyCycle\<close>. \<open>trace\<close> is not in the program: it records, oldest first, each
  call of \<^verbatim>\<open>setPwmDutyCycle\<close> and of \<^verbatim>\<open>sleep\<close> with its argument and each read of a
  pattern element with its index, so that properties of the calls made can be stated.
  \<open>handler_runs\<close> is not in the program either: it counts the runs of the overflow
  handler since the start, without bound and never written by anything else, so that the
  ticks elapsed between two states can be stated apart from the counter.
\<close>

datatype event = PwmWrite uint16_t | SleepCall uint16_t | PatternRead int

record mcu =
  ticks :: uint16_t
  OCR0A :: uint16_t
  trace :: "event list"
  handler_runs :: nat

text \<open>The overflow interrupt handler of lines 37--40; \<open>handler_runs\<close> counts the run.\<close>

definition TIM0_OVF_vect :: "mcu \<Rightarrow> mcu" where
  "TIM0_OVF_vect m = m\<lparr>ticks := ticks m + 1, handler_runs := handler_runs m + 1\<rparr>"

text \<open>
  The \<^verbatim>\<open>do ... while (end > ticks)\<close> loop of lines 47--54. The timer overflow is the only
  interrupt enabled, so \<^verbatim>\<open>sleep_cpu()\<close> returns when the handler has run once: one round of
  the loop is one call of the handler. No tick is taken to arrive while the main thread
  computes between two sleeps.
\<close>

function sleep_wait :: "uint16_t \<Rightarrow> mcu \<Rightarrow> mcu" where
  "sleep_wait end m =
     (let m' = TIM0_OVF_vect m in if end > ticks m' then sleep_wait end m' else m')"
  by pat_completeness auto
termination
proof (relation "measure (\<lambda>(e, m). unat (e - ticks m - 1))")
  show "wf (measure (\<lambda>(e, m). unat (e - ticks m - 1)))"
    by simp
next
  fix e :: uint16_t and m x :: mcu
  assume x: "x = TIM0_OVF_vect m" and lt: "ticks x < e"
  define w where "w = e - ticks m - 1"
  have "e \<noteq> ticks m + 1"
    using lt x by (auto simp: TIM0_OVF_vect_def)
  then have "w \<noteq> 0"
    by (simp add: w_def algebra_simps)
  then have "unat (w - 1) < unat w"
    by (simp add: unat_minus_one unat_gt_0)
  moreover have "e - ticks x - 1 = w - 1"
    using x by (simp add: TIM0_OVF_vect_def w_def)
  ultimately have "unat (e - ticks x - 1) < unat w"
    by simp
  then show "((e, x), (e, m)) \<in> measure (\<lambda>(e, m). unat (e - ticks m - 1))"
    unfolding w_def by simp
qed

declare sleep_wait.simps [simp del]

definition sleep :: "uint16_t \<Rightarrow> mcu \<Rightarrow> mcu" where
  "sleep delay m =
     (let end = ticks m + delay
      in sleep_wait end (m\<lparr>trace := trace m @ [SleepCall delay]\<rparr>))"

definition setPwmDutyCycle :: "uint16_t \<Rightarrow> mcu \<Rightarrow> mcu" where
  "setPwmDutyCycle v m = m\<lparr>OCR0A := v, trace := trace m @ [PwmWrite v]\<rparr>"

subsection \<open>The fade (lines 149--204)\<close>

text \<open>
  Lines 168--189: the duty cycle of this round and the step after the acceleration table
  has been consulted. \<^verbatim>\<open>step - 1\<close> is computed in \<^verbatim>\<open>int\<close>, so it is \<open>-1\<close> for \<open>step = 0\<close>.
\<close>

definition fade_value :: "uint8_t list \<Rightarrow> bool \<Rightarrow> uint8_t \<Rightarrow> uint8_t \<Rightarrow> error + (uint8_t \<times> uint8_t)" where
  "fade_value ap sign k step =
     (if sign then
        (let v = k - 1 in
         case at_index ap (uint step) of
           Inl e \<Rightarrow> Inl e
         | Inr p \<Rightarrow> Inr (v, if v \<ge> p then step + 1 else step))
      else
        (let v = 128 - k in
         case at_index ap (uint step - 1) of
           Inl e \<Rightarrow> Inl e
         | Inr p \<Rightarrow> Inr (v, if v \<le> p then step - 1 else step)))"

text \<open>Lines 195--203: the sleep of this round, one tick longer while the remainder lasts.\<close>

definition fade_sleep :: "int16_t \<Rightarrow> uint8_t \<Rightarrow> mcu \<Rightarrow> uint8_t \<times> mcu" where
  "fade_sleep delay remainder m =
     (if remainder \<noteq> 0 then (remainder - 1, sleep (c_div delay 64 + 1) m)
      else (remainder, sleep (c_div delay 64) m))"

text \<open>One round of the \<^verbatim>\<open>for\<close> loop of line 166, with its increment \<^verbatim>\<open>k += step\<close>.\<close>

definition fade_body ::
  "uint8_t list \<Rightarrow> bool \<Rightarrow> int16_t \<Rightarrow> uint8_t \<times> uint8_t \<times> uint8_t \<times> mcu
     \<Rightarrow> error + (uint8_t \<times> uint8_t \<times> uint8_t \<times> mcu)" where
  "fade_body ap sign delay s =
     (case s of (k, step, remainder, m) \<Rightarrow>
        (case fade_value ap sign k step of
           Inl e \<Rightarrow> Inl e
         | Inr (v, step') \<Rightarrow>
             (case fade_sleep delay remainder (setPwmDutyCycle (ucast v) m) of
                (remainder', m') \<Rightarrow> Inr (k + step', step', remainder', m'))))"

text \<open>
  The loop itself. Nothing in the code bounds the number of rounds (a step of 0 leaves
  \<open>k\<close> where it is), so the loop is a partial function: \<open>None\<close> is a loop that never ends,
  \<open>Some (Inl e)\<close> a loop that read outside the table.
\<close>

partial_function (option) fade_loop ::
  "uint8_t list \<Rightarrow> bool \<Rightarrow> int16_t \<Rightarrow> uint8_t \<times> uint8_t \<times> uint8_t \<times> mcu
     \<Rightarrow> (error + (uint8_t \<times> uint8_t \<times> uint8_t \<times> mcu)) option" where
  "fade_loop ap sign delay s =
     (if fst s < 128 then
        (case fade_body ap sign delay s of
           Inl e \<Rightarrow> Some (Inl e)
         | Inr s' \<Rightarrow> fade_loop ap sign delay s')
      else Some (Inr s))"

declare fade_loop.simps [code]

text \<open>
  Lines 149--163: the remainder and the first step. \<^verbatim>\<open>sizeof(...) / sizeof(...) - 2\<close> is
  the number of entries less two, cut to 8 bits by the assignment.
\<close>

definition fade_init :: "uint8_t list \<Rightarrow> bool \<Rightarrow> int16_t \<Rightarrow> mcu \<Rightarrow> uint8_t \<times> uint8_t \<times> uint8_t \<times> mcu" where
  "fade_init ap sign delay m =
     (let remainder = ucast (c_mod delay 64);
          step = (if sign then 1 else of_nat (length ap) - 2)
      in (1, step, remainder, m))"

definition fade :: "uint8_t list \<Rightarrow> bool \<Rightarrow> int16_t \<Rightarrow> mcu \<Rightarrow> (error + mcu) option" where
  "fade ap sign delay m =
     (case fade_loop ap sign delay (fade_init ap sign delay m) of
        None \<Rightarrow> None
      | Some (Inl e) \<Rightarrow> Some (Inl e)
      | Some (Inr (k, step, remainder, m')) \<Rightarrow> Some (Inr m'))"

subsection \<open>The interpreter (lines 105--212)\<close>

text \<open>
  Lines 121--208: one note of a pattern, from the state \<^verbatim>\<open>state\<close> (is the light on) and the
  machine. \<^verbatim>\<open>delay = -delay\<close> is the 16-bit negation, which leaves \<open>-32768\<close> as it is.
\<close>

definition play_note :: "uint8_t list \<Rightarrow> int16_t \<Rightarrow> bool \<times> mcu \<Rightarrow> (error + bool \<times> mcu) option" where
  "play_note ap x s =
     (case s of (state, m) \<Rightarrow>
        (case (if x <s 0 then (- x, False) else (x, True)) of (delay, sign) \<Rightarrow>
           if state = sign then Some (Inr (state, sleep delay m))
           else if delay <s 128 then
             Some (Inr (sign, setPwmDutyCycle (if sign then 127 else 0) m))
           else
             (case fade ap sign delay m of
                None \<Rightarrow> None
              | Some (Inl e) \<Rightarrow> Some (Inl e)
              | Some (Inr m') \<Rightarrow> Some (Inr (sign, m')))))"

text \<open>
  The \<^verbatim>\<open>for\<close> loop of line 119 over the notes of one pattern, from index \<open>j\<close>: one pass
  is \<open>notes_loop ap pat 0\<close>. The element at \<open>j\<close> is read for the loop condition and, when
  it is not 0, again in line 121.
\<close>

partial_function (option) notes_loop ::
  "uint8_t list \<Rightarrow> int16_t list \<Rightarrow> uint8_t \<Rightarrow> bool \<times> mcu \<Rightarrow> (error + bool \<times> mcu) option" where
  "notes_loop ap pat j s =
     (case at_index pat (uint j) of
        Inl e \<Rightarrow> Some (Inl e)
      | Inr c \<Rightarrow>
          (let s1 = (fst s, (snd s)\<lparr>trace := trace (snd s) @ [PatternRead (uint j)]\<rparr>) in
           if c \<noteq> 0 then
             (case at_index pat (uint j) of
                Inl e \<Rightarrow> Some (Inl e)
              | Inr x \<Rightarrow>
                  (let s2 = (fst s1, (snd s1)\<lparr>trace := trace (snd s1) @ [PatternRead (uint j)]\<rparr>) in
                   case play_note ap x s2 of
                     None \<Rightarrow> None
                   | Some (Inl e) \<Rightarrow> Some (Inl e)
                   | Some (Inr s') \<Rightarrow> notes_loop ap pat (j + 1) s'))
           else Some (Inr s1)))"

declare notes_loop.simps [code]

text \<open>The \<^verbatim>\<open>do ... while (ticks < PATTERN_DURATION)\<close> loop of lines 116--210.\<close>

partial_function (option) passes_loop ::
  "uint8_t list \<Rightarrow> int16_t list \<Rightarrow> bool \<times> mcu \<Rightarrow> (error + bool \<times> mcu) option" where
  "passes_loop ap pat s =
     (case notes_loop ap pat 0 s of
        None \<Rightarrow> None
      | Some (Inl e) \<Rightarrow> Some (Inl e)
      | Some (Inr s') \<Rightarrow>
          if ticks (snd s') < PATTERN_DURATION then passes_loop ap pat s' else Some (Inr s'))"

declare passes_loop.simps [code]

text \<open>Line 113: the interpreter clears the tick counter when it enters a pattern.\<close>

definition enter_pattern :: "mcu \<Rightarrow> mcu" where
  "enter_pattern m = m\<lparr>ticks := 0\<rparr>"

text \<open>Lines 113--210: the body of the loop over the patterns, for one pattern.\<close>

definition play_pattern ::
  "uint8_t list \<Rightarrow> int16_t list \<Rightarrow> bool \<times> mcu \<Rightarrow> (error + bool \<times> mcu) option" where
  "play_pattern ap pat s = passes_loop ap pat (fst s, enter_pattern (snd s))"

text \<open>
  Lines 107--212 never return. One step of the model plays the pattern at \<open>i\<close> and gives
  the index the code plays next: \<^verbatim>\<open>i++\<close>, and when \<^verbatim>\<open>i < sizeof(patterns)/sizeof(patterns[0])\<close>
  fails the \<^verbatim>\<open>for\<close> loop ends and \<^verbatim>\<open>while (true)\<close> starts it again at 0.
\<close>

definition main_step ::
  "int16_t list list \<Rightarrow> uint8_t list \<Rightarrow> uint8_t \<times> bool \<times> mcu \<Rightarrow> (error + uint8_t \<times> bool \<times> mcu) option" where
  "main_step pats ap c =
     (case c of (i, s) \<Rightarrow>
        (case at_index pats (uint i) of
           Inl e \<Rightarrow> Some (Inl e)
         | Inr pat \<Rightarrow>
             (case play_pattern ap pat s of
                None \<Rightarrow> None
              | Some (Inl e) \<Rightarrow> Some (Inl e)
              | Some (Inr s') \<Rightarrow>
                  Some (Inr (if uint (i + 1) < int (length pats) then i + 1 else 0, s')))))"

subsection \<open>What the properties are stated with\<close>

text \<open>The arguments of the calls of one kind in a trace, oldest first.\<close>

primrec pwm_writes :: "event list \<Rightarrow> uint16_t list" where
  "pwm_writes [] = []"
| "pwm_writes (e # es) =
     (case e of PwmWrite v \<Rightarrow> v # pwm_writes es | SleepCall d \<Rightarrow> pwm_writes es
      | PatternRead i \<Rightarrow> pwm_writes es)"

primrec sleep_calls :: "event list \<Rightarrow> uint16_t list" where
  "sleep_calls [] = []"
| "sleep_calls (e # es) =
     (case e of PwmWrite v \<Rightarrow> sleep_calls es | SleepCall d \<Rightarrow> d # sleep_calls es
      | PatternRead i \<Rightarrow> sleep_calls es)"

primrec pattern_reads :: "event list \<Rightarrow> int list" where
  "pattern_reads [] = []"
| "pattern_reads (e # es) =
     (case e of PwmWrite v \<Rightarrow> pattern_reads es | SleepCall d \<Rightarrow> pattern_reads es
      | PatternRead i \<Rightarrow> i # pattern_reads es)"

text \<open>
  The states in which the loop of line 166 stands at its condition, from the state \<open>s0\<close>
  it is entered with: \<open>s0\<close> itself, and the state after one more round from any of them
  that passes the condition.
\<close>

inductive fade_reach ::
  "uint8_t list \<Rightarrow> bool \<Rightarrow> int16_t \<Rightarrow> uint8_t \<times> uint8_t \<times> uint8_t \<times> mcu
     \<Rightarrow> uint8_t \<times> uint8_t \<times> uint8_t \<times> mcu \<Rightarrow> bool"
  for ap sign delay s0 where
  start: "fade_reach ap sign delay s0 s0"
| round: "fade_reach ap sign delay s0 s \<Longrightarrow> fst s < 128 \<Longrightarrow> fade_body ap sign delay s = Inr s'
          \<Longrightarrow> fade_reach ap sign delay s0 s'"

code_pred fade_reach .

text \<open>
  Two halves of the loop of line 166, for the proofs. \<open>fade_steps\<close> is its arithmetic on
  \<open>k\<close> and \<open>step\<close> alone, for at most \<open>n\<close> rounds: the duty cycles in the order they are
  computed, and \<open>k\<close> and \<open>step\<close> at the exit. \<open>fade_rounds\<close> is what the rounds do to the
  remainder and the machine, given those duty cycles.
\<close>

primrec fade_steps ::
  "nat \<Rightarrow> uint8_t list \<Rightarrow> bool \<Rightarrow> uint8_t \<Rightarrow> uint8_t \<Rightarrow> (uint8_t list \<times> uint8_t \<times> uint8_t) option" where
  "fade_steps 0 ap sign k step = None"
| "fade_steps (Suc n) ap sign k step =
     (if k < 128 then
        (case fade_value ap sign k step of
           Inl e \<Rightarrow> None
         | Inr (v, step') \<Rightarrow>
             (case fade_steps n ap sign (k + step') step' of
                None \<Rightarrow> None
              | Some (vs, kf) \<Rightarrow> Some (v # vs, kf)))
      else Some ([], k, step))"

primrec fade_rounds :: "int16_t \<Rightarrow> uint8_t list \<Rightarrow> uint8_t \<Rightarrow> mcu \<Rightarrow> uint8_t \<times> mcu" where
  "fade_rounds delay [] remainder m = (remainder, m)"
| "fade_rounds delay (v # vs) remainder m =
     (case fade_sleep delay remainder (setPwmDutyCycle (ucast v) m) of
        (remainder', m') \<Rightarrow> fade_rounds delay vs remainder' m')"

text \<open>The duty cycles of a fade with the table of line 32, upwards and downwards.\<close>

definition bright_values :: "uint8_t list" where
  "bright_values =
    [0, 1, 2, 3, 4, 5, 6, 7, 8, 9, 10, 11, 12, 13, 14, 15, 16, 17, 18, 19, 20, 21, 22, 23, 24,
     25, 26, 27, 28, 29, 30, 32, 34, 36, 38, 40, 42, 44, 46, 48, 50, 52, 54, 56, 58, 60, 63,
     66, 69, 72, 75, 78, 81, 85, 90, 95, 100, 105, 110, 115, 120, 125]"

definition dim_values :: "uint8_t list" where
  "dim_values =
    [127, 123, 119, 115, 111, 107, 103, 99, 95, 91, 87, 83, 79, 76, 73, 70, 67, 64, 61, 58,
     56, 54, 52, 50, 48, 46, 44, 42, 40, 38, 36, 34, 32, 30, 29, 28, 27, 26, 25, 24, 23, 22,
     21, 20, 19, 18, 17, 16, 15, 14, 13, 12, 11, 10, 9, 8, 7, 6, 5, 4, 3, 2, 1]"

text \<open>
  For the passes over a pattern: the notes of a pattern are its elements before the first
  0, the magnitude of a note is the \<^verbatim>\<open>delay\<close> of lines 121--129, and \<open>pass_reads\<close> lists
  the indices that a pass which runs through the notes and stops at that 0 reads.
\<close>

definition notes_of :: "int16_t list \<Rightarrow> int16_t list" where
  "notes_of pat = takeWhile (\<lambda>x. x \<noteq> 0) pat"

definition magnitude :: "int16_t \<Rightarrow> int16_t" where
  "magnitude x = (if x <s 0 then - x else x)"

definition pass_reads :: "int16_t list \<Rightarrow> int list" where
  "pass_reads pat =
     concat (map (\<lambda>i. [int i, int i]) [0 ..< length (notes_of pat)]) @ [int (length (notes_of pat))]"

text \<open>
  Bounds on the ticks that the notes \<open>xs\<close> take. A note takes at most its magnitude. From
  the state \<open>st\<close>, a note of the same sign is a sleep and takes its magnitude; one of the
  other sign takes at least 124 ticks when its magnitude is 128 or more (a fade), and may
  take none otherwise (an instant switch). After a note the state is its sign.
\<close>

definition ticks_max :: "int16_t list \<Rightarrow> nat" where
  "ticks_max xs = sum_list (map (\<lambda>x. unat (magnitude x)) xs)"

primrec ticks_min :: "bool \<Rightarrow> int16_t list \<Rightarrow> nat" where
  "ticks_min st [] = 0"
| "ticks_min st (x # xs) =
     (if st = (\<not> x <s 0) then unat (magnitude x)
      else if 128 \<le> unat (magnitude x) then 124 else 0) + ticks_min (\<not> x <s 0) xs"

text \<open>
  What the proofs need of a pattern: a 0 ends it, within reach of the 8-bit index; no note
  is \<open>-32768\<close>; a pass cannot take the 16-bit counter from below 30000 around to 0; and a
  pass takes time, whichever state it starts in.
\<close>

definition pattern_ok :: "int16_t list \<Rightarrow> bool" where
  "pattern_ok pat =
     (length (notes_of pat) < length pat \<and> length (notes_of pat) < 256 \<and>
      list_all (\<lambda>x. 0 <s magnitude x) (notes_of pat) \<and>
      ticks_max (notes_of pat) \<le> 35535 \<and>
      1 \<le> ticks_min True (notes_of pat) \<and> 1 \<le> ticks_min False (notes_of pat))"

text \<open>
  The pattern budget in the words of the specification. \<open>base\<close> is the number of handler
  runs when the pattern was entered, so that \<open>handler_runs m - base\<close> is the number of
  ticks elapsed since then. From \<open>s\<close>, the pattern is played in complete passes; after
  each of the first \<open>p\<close> passes fewer than 30000 ticks had elapsed since the entry, after
  the next one 30000 or more, and there the pattern is left in \<open>s'\<close>.
\<close>

inductive passes_until_budget ::
  "uint8_t list \<Rightarrow> int16_t list \<Rightarrow> nat \<Rightarrow> bool \<times> mcu \<Rightarrow> nat \<Rightarrow> bool \<times> mcu \<Rightarrow> bool"
  for ap pat base where
  last_pass: "notes_loop ap pat 0 s = Some (Inr s') \<Longrightarrow> \<not> handler_runs (snd s') - base < 30000
          \<Longrightarrow> passes_until_budget ap pat base s 0 s'"
| one_more: "notes_loop ap pat 0 s = Some (Inr s1) \<Longrightarrow> handler_runs (snd s1) - base < 30000
          \<Longrightarrow> passes_until_budget ap pat base s1 p s'
          \<Longrightarrow> passes_until_budget ap pat base s (Suc p) s'"

code_pred passes_until_budget .

text \<open>
  The counter against the handler. \<open>in_step m m'\<close>: from \<open>m\<close> to \<open>m'\<close> the counter has
  moved by the number of handler runs in between, modulo \<open>2 ^ 16\<close>. \<open>passes_counted\<close>: from
  \<open>s\<close> the pattern is played in complete passes up to \<open>s'\<close>; at the end of each pass the
  counter is the number of handler runs since \<open>base\<close>, and it is the counter that is
  compared with \<open>PATTERN_DURATION\<close>, another pass following when it is less.
\<close>

definition in_step :: "mcu \<Rightarrow> mcu \<Rightarrow> bool" where
  "in_step m m' =
     (handler_runs m \<le> handler_runs m' \<and>
      ticks m' = ticks m + word_of_nat (handler_runs m' - handler_runs m))"

inductive passes_counted ::
  "uint8_t list \<Rightarrow> int16_t list \<Rightarrow> nat \<Rightarrow> bool \<times> mcu \<Rightarrow> bool \<times> mcu \<Rightarrow> bool"
  for ap pat base where
  leave: "notes_loop ap pat 0 s = Some (Inr s') \<Longrightarrow> unat (ticks (snd s')) = handler_runs (snd s') - base
          \<Longrightarrow> \<not> ticks (snd s') < PATTERN_DURATION \<Longrightarrow> passes_counted ap pat base s s'"
| again: "notes_loop ap pat 0 s = Some (Inr s1) \<Longrightarrow> unat (ticks (snd s1)) = handler_runs (snd s1) - base
          \<Longrightarrow> ticks (snd s1) < PATTERN_DURATION \<Longrightarrow> passes_counted ap pat base s1 s'
          \<Longrightarrow> passes_counted ap pat base s s'"

code_pred passes_counted .

text \<open>A machine to run examples on.\<close>

definition mcu0 :: mcu where
  "mcu0 = \<lparr>ticks = 0, OCR0A = 0, trace = [], handler_runs = 0\<rparr>"

section \<open>Words and C arithmetic\<close>

lemma word_succ_reaches:
  fixes t e :: "'a::len word"
  assumes "t + 1 < e"
  shows "(if t + 1 + 1 < e then e else t + 1 + 1) = e"
proof -
  have "t + 1 + 1 \<le> e" using assms by (rule inc_le)
  then show ?thesis by auto
qed

lemma word_add_nowrap:
  fixes t d :: "16 word"
  assumes "d \<noteq> 0" "unat t + unat d < 65536"
  shows "(if t + 1 < t + d then t + d else t + 1) = t + d"
proof -
  have d: "unat (t + d) = unat t + unat d"
    using assms(2) by (simp add: unat_add_lem [THEN iffD1])
  have "0 < unat d" using assms(1) by (simp add: unat_gt_0)
  then have "unat t + unat (1 :: 16 word) < 65536" using assms(2) by simp
  then have o: "unat (t + 1) = unat t + 1"
    by (simp add: unat_add_lem [THEN iffD1])
  show ?thesis
  proof (cases "t + 1 < t + d")
    case True then show ?thesis by simp
  next
    case False
    then have "unat t + unat d \<le> unat t + 1"
      using d o by (simp add: word_less_nat_alt)
    with \<open>0 < unat d\<close> have "unat (t + d) = unat (t + 1)" using d o by linarith
    then have "t + d = t + 1" by (simp only: word_unat_eq_iff)
    then show ?thesis by simp
  qed
qed

lemma sint16_lt: "sint (d :: 16 word) < 32768"
  using sint_lt [of d] by simp

lemma sint_nonneg_uint:
  fixes d :: "16 word"
  assumes "0 \<le> sint d"
  shows "sint d = uint d"
proof -
  have "sint d < 2 ^ 16"
    using sint16_lt [of d] by simp
  then have "take_bit 16 (sint d) = sint d"
    using assms by (simp add: take_bit_int_eq_self)
  then show eq: "sint d = uint d"
    by (simp add: uint_sint)
qed

lemma sint_nonneg_unat:
  fixes d :: "16 word"
  assumes "0 \<le> sint d"
  shows "unat d < 32768"
proof -
  have "uint d < 32768"
    using sint16_lt [of d] sint_nonneg_uint [OF assms] by (simp only:)
  moreover have "int (unat d) = uint d"
    by simp
  ultimately show ?thesis
    by linarith
qed

lemma sdiv_nonneg: "0 \<le> (a::int) \<Longrightarrow> a sdiv 64 = a div 64"
  by (cases "a = 0") (simp_all add: signed_divide_int_def sgn_if)

lemma smod_nonneg: "0 \<le> (a::int) \<Longrightarrow> a smod 64 = a mod 64"
  by (cases "a = 0") (simp_all add: signed_modulo_int_def sgn_if)

lemma c_div_64:
  assumes "0 \<le> sint d"
  shows "unat (c_div d 64) = unat d div 64"
proof -
  have "sint d sdiv 64 = uint d div 64"
    using assms sdiv_nonneg [of "sint d"] by (simp add: sint_nonneg_uint)
  then have "c_div d 64 = word_of_int (uint d div 64)"
    by (simp add: c_div_def)
  also have "\<dots> = d div 64"
    by (simp add: word_div_def)
  finally show ?thesis by (simp add: unat_div)
qed

lemma c_mod_64:
  assumes "0 \<le> sint d"
  shows "unat (ucast (c_mod d 64) :: 8 word) = unat d mod 64"
proof -
  have "sint d smod 64 = uint d mod 64"
    using assms smod_nonneg [of "sint d"] by (simp add: sint_nonneg_uint)
  then have "c_mod d 64 = word_of_int (uint d mod 64)"
    by (simp add: c_mod_def)
  also have "\<dots> = d mod 64"
    by (simp add: word_mod_def)
  finally have "unat (c_mod d 64) = unat d mod 64" by (simp add: unat_mod)
  moreover have "unat d mod 64 < 256"
    by (rule less_trans [OF mod_less_divisor]) simp_all
  ultimately show ?thesis
    by (simp add: unsigned_ucast_eq take_bit_eq_mod)
qed

section \<open>Sleeping\<close>

lemma word_pred_Suc:
  fixes w :: "'a::len word"
  assumes "w \<noteq> 0"
  shows "Suc (unat (w - 1)) = unat w"
  using assms by (simp add: unat_minus_one unat_gt_0)

lemma sleep_wait_eq:
  "sleep_wait e m =
     m\<lparr>ticks := (if ticks m + 1 < e then e else ticks m + 1),
       handler_runs := handler_runs m
         + Suc (unat ((if ticks m + 1 < e then e else ticks m + 1) - (ticks m + 1)))\<rparr>"
proof (induction e m rule: sleep_wait.induct)
  case (1 e m)
  define m' where "m' = TIM0_OVF_vect m"
  have tm': "ticks m' = ticks m + 1" and hm': "handler_runs m' = handler_runs m + 1"
    and m'_upd: "\<And>v n. m'\<lparr>ticks := v, handler_runs := n\<rparr> = m\<lparr>ticks := v, handler_runs := n\<rparr>"
    by (simp_all add: m'_def TIM0_OVF_vect_def)
  have unfold: "sleep_wait e m = (if e > ticks m' then sleep_wait e m' else m')"
    by (subst sleep_wait.simps) (simp add: m'_def Let_def)
  show ?case
  proof (cases "ticks m + 1 < e")
    case True
    then have "e - (ticks m + 1) \<noteq> 0"
      by auto
    from word_pred_Suc [OF this]
    have runs: "Suc (unat (e - (ticks m + 1 + 1))) = unat (e - (ticks m + 1))"
      by (simp add: algebra_simps)
    have "sleep_wait e m = sleep_wait e m'"
      using True unfold tm' by simp
    also have "\<dots> = m'\<lparr>ticks := (if ticks m' + 1 < e then e else ticks m' + 1),
        handler_runs := handler_runs m'
          + Suc (unat ((if ticks m' + 1 < e then e else ticks m' + 1) - (ticks m' + 1)))\<rparr>"
      using True tm' by (intro "1.IH") (simp_all add: m'_def)
    also have "\<dots> = m'\<lparr>ticks := e, handler_runs := handler_runs m' + Suc (unat (e - (ticks m' + 1)))\<rparr>"
      unfolding tm' word_succ_reaches [OF True] ..
    also have "\<dots> = m\<lparr>ticks := e, handler_runs := handler_runs m + Suc (unat (e - (ticks m + 1)))\<rparr>"
      unfolding m'_upd hm' tm' using runs by simp
    finally show ?thesis
      using True by simp
  next
    case False
    then have "sleep_wait e m = m'"
      using unfold tm' by simp
    then show ?thesis
      using False by (simp add: m'_def TIM0_OVF_vect_def)
  qed
qed

lemma sleep_eq:
  "sleep d m =
     m\<lparr>ticks := (if ticks m + 1 < ticks m + d then ticks m + d else ticks m + 1),
       trace := trace m @ [SleepCall d],
       handler_runs := handler_runs m
         + Suc (unat ((if ticks m + 1 < ticks m + d then ticks m + d else ticks m + 1)
             - (ticks m + 1)))\<rparr>"
  by (simp add: sleep_def sleep_wait_eq Let_def)

lemma sleep_trace [simp]: "trace (sleep d m) = trace m @ [SleepCall d]"
  by (simp add: sleep_eq)

lemma sleep_OCR0A [simp]: "OCR0A (sleep d m) = OCR0A m"
  by (simp add: sleep_eq)

lemma sleep_ticks_nowrap:
  assumes "d \<noteq> 0" "unat (ticks m) + unat d < 65536"
  shows "ticks (sleep d m) = ticks m + d"
  using word_add_nowrap [OF assms] by (simp add: sleep_eq)

lemma sleep_unat_ticks:
  assumes "d \<noteq> 0" "unat (ticks m) + unat d < 65536"
  shows "unat (ticks (sleep d m)) = unat (ticks m) + unat d"
  using assms by (simp add: sleep_ticks_nowrap unat_add_lem [THEN iffD1])

lemma sleep_handler_runs:
  assumes "d \<noteq> 0" "unat (ticks m) + unat d < 65536"
  shows "handler_runs (sleep d m) = handler_runs m + unat d"
proof -
  have "handler_runs (sleep d m) = handler_runs m + Suc (unat (ticks m + d - (ticks m + 1)))"
    unfolding sleep_eq word_add_nowrap [OF assms] by simp
  also have "ticks m + d - (ticks m + 1) = d - 1"
    by simp
  finally show ?thesis
    by (simp only: word_pred_Suc [OF assms(1)])
qed

lemma setPwm_simps [simp]:
  "trace (setPwmDutyCycle v m) = trace m @ [PwmWrite v]"
  "OCR0A (setPwmDutyCycle v m) = v"
  "ticks (setPwmDutyCycle v m) = ticks m"
  "handler_runs (setPwmDutyCycle v m) = handler_runs m"
  by (simp_all add: setPwmDutyCycle_def)

lemma pwm_writes_append [simp]: "pwm_writes (xs @ ys) = pwm_writes xs @ pwm_writes ys"
  by (induction xs) (simp_all split: event.splits)

lemma sleep_calls_append [simp]: "sleep_calls (xs @ ys) = sleep_calls xs @ sleep_calls ys"
  by (induction xs) (simp_all split: event.splits)

lemma pattern_reads_append [simp]: "pattern_reads (xs @ ys) = pattern_reads xs @ pattern_reads ys"
  by (induction xs) (simp_all split: event.splits)

section \<open>The fade loop, split in its two halves\<close>

lemma fade_loop_steps:
  "fade_steps n ap sign k step = Some (vs, k', step') \<Longrightarrow>
   fade_loop ap sign delay (k, step, remainder, m) =
     Some (Inr (k', step', fade_rounds delay vs remainder m))"
proof (induction n arbitrary: k step remainder m vs)
  case 0
  then show ?case by simp
next
  case (Suc n)
  show ?case
  proof (cases "k < 128")
    case False
    with Suc.prems show ?thesis
      by (subst fade_loop.simps) auto
  next
    case True
    from Suc.prems True obtain v s1 ws where
      fv: "fade_value ap sign k step = Inr (v, s1)" and
      rest: "fade_steps n ap sign (k + s1) s1 = Some (ws, k', step')" and
      vs: "vs = v # ws"
      by (auto split: sum.splits option.splits)
    obtain r1 m1 where fs: "fade_sleep delay remainder (setPwmDutyCycle (ucast v) m) = (r1, m1)"
      by (cases "fade_sleep delay remainder (setPwmDutyCycle (ucast v) m)")
    have body: "fade_body ap sign delay (k, step, remainder, m) = Inr (k + s1, s1, r1, m1)"
      by (simp add: fade_body_def fv fs)
    have "fade_loop ap sign delay (k, step, remainder, m) =
          fade_loop ap sign delay (k + s1, s1, r1, m1)"
      using True by (subst fade_loop.simps) (simp add: body)
    also have "\<dots> = Some (Inr (k', step', fade_rounds delay ws r1 m1))"
      by (rule Suc.IH [OF rest])
    finally show ?thesis
      by (simp add: vs fs)
  qed
qed

lemma fade_reach_steps:
  "fade_steps n ap sign k step = Some (vs, k', step') \<Longrightarrow>
   fade_reach ap sign delay s0 (k, step, remainder, m) \<Longrightarrow>
   fade_reach ap sign delay s0 (k', step', fade_rounds delay vs remainder m)"
proof (induction n arbitrary: k step remainder m vs)
  case 0
  then show ?case by simp
next
  case (Suc n)
  show ?case
  proof (cases "k < 128")
    case False
    with Suc.prems show ?thesis
      by auto
  next
    case True
    from Suc.prems True obtain v s1 ws where
      fv: "fade_value ap sign k step = Inr (v, s1)" and
      rest: "fade_steps n ap sign (k + s1) s1 = Some (ws, k', step')" and
      vs: "vs = v # ws"
      by (auto split: sum.splits option.splits)
    obtain r1 m1 where fs: "fade_sleep delay remainder (setPwmDutyCycle (ucast v) m) = (r1, m1)"
      by (cases "fade_sleep delay remainder (setPwmDutyCycle (ucast v) m)")
    have body: "fade_body ap sign delay (k, step, remainder, m) = Inr (k + s1, s1, r1, m1)"
      by (simp add: fade_body_def fv fs)
    have "fade_reach ap sign delay s0 (k + s1, s1, r1, m1)"
      using Suc.prems(2) True body by (auto intro: fade_reach.round)
    then have "fade_reach ap sign delay s0 (k', step', fade_rounds delay ws r1 m1)"
      by (rule Suc.IH [OF rest])
    then show ?thesis
      by (simp add: vs fs)
  qed
qed

lemma bright_steps: "fade_steps 64 accelerationPoints True 1 1 = Some (bright_values, 131, 5)"
  by code_simp

lemma dim_steps: "fade_steps 64 accelerationPoints False 1 4 = Some (dim_values, 128, 1)"
  by code_simp

lemma fade_init_shipped:
  "fade_init accelerationPoints sign delay m = (1, if sign then 1 else 4, ucast (c_mod delay 64), m)"
  by (simp add: fade_init_def accelerationPoints_def)

lemma fade_loop_shipped:
  "fade_loop accelerationPoints sign delay (fade_init accelerationPoints sign delay m) =
     Some (Inr (if sign then 131 else 128, if sign then 5 else 1,
       fade_rounds delay (if sign then bright_values else dim_values) (ucast (c_mod delay 64)) m))"
  by (simp add: fade_init_shipped fade_loop_steps [OF bright_steps] fade_loop_steps [OF dim_steps])

lemma fade_shipped:
  "fade accelerationPoints sign delay m =
     Some (Inr (snd (fade_rounds delay (if sign then bright_values else dim_values)
       (ucast (c_mod delay 64)) m)))"
  by (simp add: fade_def fade_loop_shipped split: prod.splits)

section \<open>What the rounds do to the machine\<close>

lemma fade_sleep_trace:
  "trace (snd (fade_sleep delay r m)) =
     trace m @ [SleepCall (if r \<noteq> 0 then c_div delay 64 + 1 else c_div delay 64)]"
  by (simp add: fade_sleep_def)

lemma fade_sleep_OCR0A [simp]: "OCR0A (snd (fade_sleep delay r m)) = OCR0A m"
  by (simp add: fade_sleep_def)

lemma fade_sleep_fst: "fst (fade_sleep delay r m) = (if r \<noteq> 0 then r - 1 else r)"
  by (simp add: fade_sleep_def)

lemma fade_rounds_pwm_writes:
  "pwm_writes (trace (snd (fade_rounds delay vs r m))) = pwm_writes (trace m) @ map ucast vs"
proof (induction vs arbitrary: r m)
  case Nil
  then show ?case by simp
next
  case (Cons v vs)
  obtain r1 m1 where fs: "fade_sleep delay r (setPwmDutyCycle (ucast v) m) = (r1, m1)"
    by (cases "fade_sleep delay r (setPwmDutyCycle (ucast v) m)")
  have "trace m1 = trace m @ [PwmWrite (ucast v), SleepCall (if r \<noteq> 0 then c_div delay 64 + 1 else c_div delay 64)]"
    using fade_sleep_trace [of delay r "setPwmDutyCycle (ucast v) m"] by (simp add: fs)
  then show ?case
    by (simp add: fs Cons.IH)
qed

lemma fade_rounds_pattern_reads:
  "pattern_reads (trace (snd (fade_rounds delay vs r m))) = pattern_reads (trace m)"
proof (induction vs arbitrary: r m)
  case Nil
  then show ?case by simp
next
  case (Cons v vs)
  obtain r1 m1 where fs: "fade_sleep delay r (setPwmDutyCycle (ucast v) m) = (r1, m1)"
    by (cases "fade_sleep delay r (setPwmDutyCycle (ucast v) m)")
  have "trace m1 = trace m @ [PwmWrite (ucast v), SleepCall (if r \<noteq> 0 then c_div delay 64 + 1 else c_div delay 64)]"
    using fade_sleep_trace [of delay r "setPwmDutyCycle (ucast v) m"] by (simp add: fs)
  then show ?case
    by (simp add: fs Cons.IH)
qed

lemma fade_rounds_OCR0A:
  "OCR0A (snd (fade_rounds delay vs r m)) = (if vs = [] then OCR0A m else ucast (last vs))"
proof (induction vs arbitrary: r m)
  case Nil
  then show ?case by simp
next
  case (Cons v vs)
  obtain r1 m1 where fs: "fade_sleep delay r (setPwmDutyCycle (ucast v) m) = (r1, m1)"
    by (cases "fade_sleep delay r (setPwmDutyCycle (ucast v) m)")
  have "OCR0A m1 = ucast v"
    using fade_sleep_OCR0A [of delay r "setPwmDutyCycle (ucast v) m"] by (simp add: fs)
  then show ?case
    by (simp add: fs Cons.IH)
qed

lemma fade_rounds_sleep_calls:
  "sleep_calls (trace (snd (fade_rounds delay vs r m))) =
     sleep_calls (trace m) @ replicate (min (length vs) (unat r)) (c_div delay 64 + 1)
       @ replicate (length vs - unat r) (c_div delay 64)"
proof (induction vs arbitrary: r m)
  case Nil
  then show ?case by simp
next
  case (Cons v vs)
  obtain r1 m1 where fs: "fade_sleep delay r (setPwmDutyCycle (ucast v) m) = (r1, m1)"
    by (cases "fade_sleep delay r (setPwmDutyCycle (ucast v) m)")
  have tr: "trace m1 = trace m @ [PwmWrite (ucast v), SleepCall (if r \<noteq> 0 then c_div delay 64 + 1 else c_div delay 64)]"
    using fade_sleep_trace [of delay r "setPwmDutyCycle (ucast v) m"] by (simp add: fs)
  have r1: "r1 = (if r \<noteq> 0 then r - 1 else r)"
    using fade_sleep_fst [of delay r "setPwmDutyCycle (ucast v) m"] by (simp add: fs)
  have unfold: "fade_rounds delay (v # vs) r m = fade_rounds delay vs r1 m1"
    by (simp add: fs)
  show ?case
  proof (cases "r = 0")
    case True
    then show ?thesis
      unfolding unfold Cons.IH using tr r1 by (simp add: replicate_append_same)
  next
    case False
    then have "unat r = Suc (unat (r - 1))"
      by (simp add: unat_minus_one unat_gt_0)
    then show ?thesis
      unfolding unfold Cons.IH using tr r1 False by simp
  qed
qed

section \<open>No table lets a fade end on its target\<close>

lemma fade_body_off_target:
  assumes body: "fade_body ap sign delay s = Inr s'" and k: "fst s < 128"
  shows "OCR0A (snd (snd (snd s'))) \<noteq> (if sign then 127 else 0)"
proof -
  obtain k step r m where s: "s = (k, step, r, m)"
    by (cases s)
  from body obtain v step' where
    fv: "fade_value ap sign k step = Inr (v, step')" and
    s': "s' = (k + step', step', fade_sleep delay r (setPwmDutyCycle (ucast v) m))"
    by (auto simp: fade_body_def s split: sum.splits prod.splits)
  have v: "v = (if sign then k - 1 else 128 - k)"
    using fv by (auto simp: fade_value_def Let_def split: if_splits sum.splits)
  have "k \<noteq> 128"
    using k by (auto simp: s)
  then have "v \<noteq> (if sign then 127 else 0)"
    unfolding v by (auto simp: algebra_simps)
  moreover have "unat v < 2 ^ 16"
    using unsigned_less [of v, where ?'a = nat] by simp
  then have "(ucast v :: 16 word) = 127 \<longleftrightarrow> v = 127" "(ucast v :: 16 word) = 0 \<longleftrightarrow> v = 0"
    by (simp_all add: word_eq_iff_unsigned [where ?'a = nat] unsigned_ucast_eq take_bit_nat_eq_self)
  ultimately show ?thesis
    by (auto simp: s' split: if_splits)
qed

lemma fade_loop_off_target:
  assumes "fade_loop ap sign delay s = Some y"
  shows "\<forall>s'. y = Inr s' \<longrightarrow> OCR0A (snd (snd (snd s))) \<noteq> (if sign then 127 else 0)
           \<longrightarrow> OCR0A (snd (snd (snd s'))) \<noteq> (if sign then 127 else 0)"
proof (rule fade_loop.raw_induct
    [where P = "\<lambda>ap sign delay s y. \<forall>s'. y = Inr s' \<longrightarrow>
        OCR0A (snd (snd (snd s))) \<noteq> (if sign then 127 else 0) \<longrightarrow>
        OCR0A (snd (snd (snd s'))) \<noteq> (if sign then 127 else 0)"])
  show "fade_loop ap sign delay s = Some y"
    by fact
next
  fix loop :: "uint8_t list \<Rightarrow> bool \<Rightarrow> int16_t \<Rightarrow> uint8_t \<times> uint8_t \<times> uint8_t \<times> mcu
      \<Rightarrow> (error + (uint8_t \<times> uint8_t \<times> uint8_t \<times> mcu)) option"
    and ap sign delay s y
  assume IH: "\<And>ap sign delay s y. loop ap sign delay s = Some y \<Longrightarrow>
      \<forall>s'. y = Inr s' \<longrightarrow> OCR0A (snd (snd (snd s))) \<noteq> (if sign then 127 else 0) \<longrightarrow>
        OCR0A (snd (snd (snd s'))) \<noteq> (if sign then 127 else 0)"
    and eq: "(if fst s < 128
      then case fade_body ap sign delay s of Inl e \<Rightarrow> Some (Inl e)
           | Inr s' \<Rightarrow> loop ap sign delay s'
      else Some (Inr s)) = Some y"
  show "\<forall>s'. y = Inr s' \<longrightarrow> OCR0A (snd (snd (snd s))) \<noteq> (if sign then 127 else 0) \<longrightarrow>
        OCR0A (snd (snd (snd s'))) \<noteq> (if sign then 127 else 0)"
  proof (cases "fst s < 128")
    case False
    with eq show ?thesis
      by auto
  next
    case True
    show ?thesis
    proof (cases "fade_body ap sign delay s")
      case (Inl e)
      with eq True show ?thesis
        by auto
    next
      case (Inr s1)
      with eq True have rest: "loop ap sign delay s1 = Some y"
        by simp
      from IH [OF rest] fade_body_off_target [OF Inr True]
      show ?thesis
        by blast
    qed
  qed
qed

lemma fade_never_on_target:
  assumes "fade ap sign delay m = Some (Inr m')"
  shows "OCR0A m' \<noteq> (if sign then 127 else 0)"
proof -
  define s0 where "s0 = fade_init ap sign delay m"
  have k0: "fst s0 < 128"
    by (simp add: s0_def fade_init_def Let_def)
  from assms obtain k step r where
    loop: "fade_loop ap sign delay s0 = Some (Inr (k, step, r, m'))"
    by (auto simp: fade_def s0_def split: option.splits sum.splits)
  then obtain s1 where
    body: "fade_body ap sign delay s0 = Inr s1" and
    rest: "fade_loop ap sign delay s1 = Some (Inr (k, step, r, m'))"
    using k0 by (subst (asm) fade_loop.simps) (auto split: sum.splits)
  from fade_loop_off_target [OF rest] fade_body_off_target [OF body k0]
  show ?thesis
    by simp
qed

lemma replicate_schedule_sum:
  fixes n r b :: nat
  shows "min n r * (b + 1) + (n - r) * b = n * b + min n r"
proof (cases "n \<le> r")
  case True
  then show ?thesis by (simp add: min_def)
next
  case False
  then have "n = r + (n - r)" by simp
  then have "n * b = r * b + (n - r) * b"
    by (metis add_mult_distrib)
  then show ?thesis
    using False by (simp add: min_def)
qed

lemma fade_sleep_total:
  assumes "0 \<le> sint delay"
  shows "sum_list (map unat (replicate (min n (unat (ucast (c_mod delay 64) :: 8 word))) (c_div delay 64 + 1)
           @ replicate (n - unat (ucast (c_mod delay 64) :: 8 word)) (c_div delay 64))) =
         n * (unat delay div 64) + min n (unat delay mod 64)"
proof -
  have "unat delay div 64 < 512"
    using sint_nonneg_unat [OF assms] by simp
  then have "unat (c_div delay 64) + unat (1 :: 16 word) < 2 ^ LENGTH(16)"
    by (simp add: c_div_64 [OF assms])
  then have "unat (c_div delay 64 + 1) = unat delay div 64 + 1"
    by (simp add: unat_add_lem [THEN iffD1] c_div_64 [OF assms])
  then show ?thesis
    using replicate_schedule_sum [of n "unat delay mod 64" "unat delay div 64"]
    by (simp add: c_mod_64 [OF assms] c_div_64 [OF assms] sum_list_replicate)
qed

lemma bright_values_facts:
  "length bright_values = 62" "last bright_values = 125" "hd bright_values = 0"
  "bright_values \<noteq> []"
  by (simp_all add: bright_values_def)

lemma dim_values_facts:
  "length dim_values = 63" "last dim_values = 1" "hd dim_values = 127"
  "dim_values \<noteq> []"
  by (simp_all add: dim_values_def)

lemma bright_values_sorted: "sorted_wrt (<) (map ucast bright_values :: 16 word list)"
proof -
  have "successively (<) (map ucast bright_values :: 16 word list)"
    by (simp add: bright_values_def)
  then show ?thesis
    by (simp only: successively_conv_sorted_wrt [OF transp_on_less])
qed

lemma dim_values_sorted: "sorted_wrt (>) (map ucast dim_values :: 16 word list)"
proof -
  have "successively (>) (map ucast dim_values :: 16 word list)"
    by (simp add: dim_values_def)
  then show ?thesis
    by (simp only: successively_conv_sorted_wrt [OF transp_on_greater])
qed

lemma fade_sleeps_sum:
  assumes "0 \<le> sint delay"
  shows "\<exists>m' ds. fade accelerationPoints sign delay m = Some (Inr m') \<and>
           sleep_calls (trace m') = sleep_calls (trace m) @ ds \<and>
           sum_list (map unat ds) =
             (if sign then 62 else 63) * (unat delay div 64)
               + min (if sign then 62 else 63) (unat delay mod 64)"
proof (cases sign)
  case True
  show ?thesis
    using fade_sleep_total [OF assms, of 62]
    by (simp add: True fade_shipped fade_rounds_sleep_calls bright_values_facts)
next
  case False
  show ?thesis
    using fade_sleep_total [OF assms, of 63]
    by (simp add: False fade_shipped fade_rounds_sleep_calls dim_values_facts)
qed

text \<open>
  C1 says that a fade ends exactly on its target: the last duty cycle written is 127 when
  brightening and 0 when dimming. With the table of line 32 the code ends, for every
  duration and from every machine state, at 125 when brightening and at 1 when dimming.
  Whatever the table, a fade that returns does not end on its target: that is
  \<open>fade_never_on_target\<close> above.
\<close>

theorem fade_last_brightness:
  "\<exists>m'. fade accelerationPoints sign delay m = Some (Inr m') \<and>
        OCR0A m' = (if sign then 125 else 1) \<and>
        last (pwm_writes (trace m')) = (if sign then 125 else 1)"
  by (simp add: fade_shipped fade_rounds_OCR0A fade_rounds_pwm_writes
      bright_values_facts dim_values_facts last_map)

text \<open>
  C2 says that the sleeps of a fade add up to its duration. For the duration 500 (the first
  two notes of the first pattern) the code sleeps 486 ticks in all when brightening and 493
  when dimming: 62 and 63 rounds of 7 ticks, and one tick more in the first 52 of them.
\<close>

theorem fade_500_sleeps_short:
  "(\<exists>m'. fade accelerationPoints True 500 mcu0 = Some (Inr m') \<and>
         sum_list (map unat (sleep_calls (trace m'))) = 486) \<and>
   (\<exists>m'. fade accelerationPoints False 500 mcu0 = Some (Inr m') \<and>
         sum_list (map unat (sleep_calls (trace m'))) = 493)"
proof -
  have nonneg: "0 \<le> sint (500 :: 16 word)"
    by simp
  show ?thesis
    using fade_sleeps_sum [OF nonneg, of True mcu0] fade_sleeps_sum [OF nonneg, of False mcu0]
    by (auto simp: mcu0_def)
qed

text \<open>
  C3 (as stated) fails: brightening over 500 ticks does not make 127 calls of
  \<^verbatim>\<open>setPwmDutyCycle\<close>.
\<close>

theorem fade_500_not_127_updates:
  "\<not> (\<exists>m'. fade accelerationPoints True 500 mcu0 = Some (Inr m') \<and>
          length (pwm_writes (trace m')) = 127)"
  by (simp add: fade_shipped fade_rounds_pwm_writes bright_values_facts mcu0_def)

text \<open>
  C3 (as amended). With the table of line 32 a fade of any duration makes at most 64 calls
  of \<^verbatim>\<open>setPwmDutyCycle\<close>, one in each round. The first writes the boundary the fade starts
  from (0 when brightening, 127 when dimming) and each later one a value strictly nearer to
  the other boundary.
\<close>

theorem fade_updates:
  "\<exists>m' ws. fade accelerationPoints sign delay m = Some (Inr m') \<and>
           pwm_writes (trace m') = pwm_writes (trace m) @ ws \<and>
           length ws \<le> 64 \<and> ws \<noteq> [] \<and>
           hd ws = (if sign then 0 else 127) \<and>
           (if sign then sorted_wrt (<) ws else sorted_wrt (>) ws)"
  by (simp add: fade_shipped fade_rounds_pwm_writes bright_values_facts dim_values_facts
      bright_values_sorted dim_values_sorted hd_map)

text \<open>
  C4 says that the table has six entries, the first 0, the last 255, and the four between
  them strictly increasing. The table of line 32 has the six entries and the two sentinels,
  but its interior is 30, 60, 80, 10.
\<close>

theorem accelerationPoints_interior_not_increasing:
  "length accelerationPoints = 6 \<and> hd accelerationPoints = 0 \<and> last accelerationPoints = 255 \<and>
   butlast (tl accelerationPoints) = [30, 60, 80, 10] \<and>
   \<not> sorted_wrt (<) (butlast (tl accelerationPoints))"
  by (simp add: accelerationPoints_def)

section \<open>The step stays between the sentinels\<close>

lemma word8_small_cases:
  fixes s :: "8 word"
  assumes "1 \<le> unat s" "unat s \<le> 5"
  shows "s = 1 \<or> s = 2 \<or> s = 3 \<or> s = 4 \<or> s = 5"
proof -
  have "unat s = 1 \<or> unat s = 2 \<or> unat s = 3 \<or> unat s = 4 \<or> unat s = 5"
    using assms by linarith
  moreover have "word_of_nat (unat s) = s"
    by simp
  ultimately show ?thesis
    by (metis of_nat_1 of_nat_numeral)
qed

lemma k_pred_small:
  fixes k :: "8 word"
  assumes "1 \<le> unat k" "unat k < 128"
  shows "\<not> 255 \<le> k - 1"
proof -
  have "k \<noteq> 0" using assms(1) by auto
  then have "unat (k - 1) = unat k - 1" by (simp add: unat_minus_one)
  then have "unat (k - 1) < unat (255 :: 8 word)" using assms by simp
  then show ?thesis by (simp add: word_le_nat_alt)
qed

lemma k_compl_pos:
  fixes k :: "8 word"
  assumes "unat k < 128"
  shows "\<not> 128 - k \<le> 0"
proof -
  have "k \<le> 128" using assms by (simp add: word_le_nat_alt)
  then have "unat (128 - k) = 128 - unat k" by (simp add: unat_sub)
  then have "128 - k \<noteq> 0" using assms by (auto simp: unat_eq_0 [symmetric])
  then show ?thesis by simp
qed

lemma fade_value_bright:
  fixes k step :: "8 word"
  assumes "1 \<le> unat k" "unat k < 128" "1 \<le> unat step" "unat step \<le> 5"
  shows "\<exists>step'. fade_value [0, a1, a2, a3, a4, 255] True k step = Inr (k - 1, step') \<and>
           (step' = step \<or> step' = step + 1) \<and> unat step' \<le> 5 \<and> unat step \<le> unat step'"
  using word8_small_cases [OF assms(3,4)] k_pred_small [OF assms(1,2)]
  by (auto simp: fade_value_def at_index_def Let_def)

lemma fade_value_dim:
  fixes k step :: "8 word"
  assumes "unat k < 128" "1 \<le> unat step" "unat step \<le> 4"
  shows "\<exists>step'. fade_value [0, a1, a2, a3, a4, 255] False k step = Inr (128 - k, step') \<and>
           (step' = step \<or> step' = step - 1) \<and> 1 \<le> unat step' \<and> unat step' \<le> unat step"
proof -
  have "step = 1 \<or> step = 2 \<or> step = 3 \<or> step = 4"
    using word8_small_cases [OF assms(2)] assms(3) by auto
  then show ?thesis
    using k_compl_pos [OF assms(1)]
    by (auto simp: fade_value_def at_index_def Let_def)
qed

lemma fade_round:
  fixes k step :: "8 word"
  assumes "1 \<le> unat k" "unat k < 128" "1 \<le> unat step" "unat step \<le> (if sign then 5 else 4)"
  shows "\<exists>step' r' m'. fade_body [0, a1, a2, a3, a4, 255] sign delay (k, step, r, m)
             = Inr (k + step', step', r', m') \<and>
           1 \<le> unat step' \<and> unat step' \<le> (if sign then 5 else 4) \<and>
           (if sign then unat step \<le> unat step' else unat step' \<le> unat step) \<and>
           unat (k + step') = unat k + unat step'"
proof -
  obtain v step' where
    fv: "fade_value [0, a1, a2, a3, a4, 255] sign k step = Inr (v, step')" and
    lo: "1 \<le> unat step'" and hi: "unat step' \<le> (if sign then 5 else 4)" and
    mono: "if sign then unat step \<le> unat step' else unat step' \<le> unat step"
  proof (cases sign)
    case True
    with fade_value_bright [of k step a1 a2 a3 a4] assms that show ?thesis
      by (auto split: if_splits)
  next
    case False
    with fade_value_dim [of k step a1 a2 a3 a4] assms that show ?thesis
      by (auto split: if_splits)
  qed
  obtain r' m' where fs: "fade_sleep delay r (setPwmDutyCycle (ucast v) m) = (r', m')"
    by (cases "fade_sleep delay r (setPwmDutyCycle (ucast v) m)")
  have "unat k + unat step' < 2 ^ LENGTH(8)"
    using assms(2) hi by (simp split: if_splits)
  then have "unat (k + step') = unat k + unat step'"
    by (simp only: unat_add_lem [THEN iffD1])
  then show ?thesis
    using lo hi mono by (simp add: fade_body_def fv fs)
qed

lemma fade_init_sentinels:
  "fade_init [0, a1, a2, a3, a4, 255] sign delay m = (1, if sign then 1 else 4, ucast (c_mod delay 64), m)"
  by (simp add: fade_init_def)

lemma fade_reach_inv:
  assumes "fade_reach [0, a1, a2, a3, a4, 255] sign delay
             (fade_init [0, a1, a2, a3, a4, 255] sign delay m) s"
  shows "1 \<le> unat (fst s) \<and> 1 \<le> unat (fst (snd s)) \<and>
         unat (fst (snd s)) \<le> (if sign then 5 else 4)"
  using assms
proof (induction rule: fade_reach.induct)
  case start
  show ?case
    by (simp add: fade_init_sentinels)
next
  case (round s s')
  obtain k step r mm where s: "s = (k, step, r, mm)"
    by (cases s)
  have k: "unat k < 128"
    using round.hyps(2) by (simp add: s word_less_nat_alt)
  from fade_round [of k step sign a1 a2 a3 a4 delay r mm] round.IH k round.hyps(3)
  show ?case
    by (auto simp: s)
qed

lemma accelerationPoints_sentinels: "accelerationPoints = [0, 30, 60, 80, 10, 255]"
  by (simp add: accelerationPoints_def)

lemma fade_round_word:
  fixes k step :: "8 word"
  assumes reach: "fade_reach [0, a1, a2, a3, a4, 255] sign delay
             (fade_init [0, a1, a2, a3, a4, 255] sign delay m) (k, step, r, mm)"
    and k: "k < 128"
  shows "\<exists>k' step' r' m'. fade_body [0, a1, a2, a3, a4, 255] sign delay (k, step, r, mm)
             = Inr (k', step', r', m') \<and>
           1 \<le> step' \<and> k < k' \<and> (if sign then step \<le> step' else step' \<le> step)"
proof -
  have inv: "1 \<le> unat k" "1 \<le> unat step" "unat step \<le> (if sign then 5 else 4)"
    using fade_reach_inv [OF reach] by simp_all
  have k': "unat k < 128"
    using k by (simp add: word_less_nat_alt)
  from fade_round [OF inv(1) k' inv(2,3), of a1 a2 a3 a4 delay r mm]
  show ?thesis
    by (auto simp: word_le_nat_alt word_less_nat_alt split: if_splits)
qed

text \<open>
  C5 (as amended). In a fade with any table of six entries between the sentinels 0 and
  255, the step starts at 1 when brightening and at 4 (the number of interior entries,
  \<^verbatim>\<open>maxStep\<close>) when dimming. Whenever the loop stands at its condition the step is between
  1 and 5 when brightening and between 1 and 4 when dimming, and a round that is entered
  leaves it at least as large when brightening and at most as large when dimming.
\<close>

theorem fade_step_range:
  "fst (snd (fade_init [0, a1, a2, a3, a4, 255] sign delay m)) = (if sign then 1 else 4) \<and>
   (\<forall>k step r mm.
      fade_reach [0, a1, a2, a3, a4, 255] sign delay
        (fade_init [0, a1, a2, a3, a4, 255] sign delay m) (k, step, r, mm) \<longrightarrow>
      1 \<le> step \<and> step \<le> (if sign then 5 else 4) \<and>
      (k < 128 \<longrightarrow>
         (\<exists>k' step' r' m'. fade_body [0, a1, a2, a3, a4, 255] sign delay (k, step, r, mm)
              = Inr (k', step', r', m') \<and>
            (if sign then step \<le> step' else step' \<le> step))))"
proof (intro conjI allI impI)
  show "fst (snd (fade_init [0, a1, a2, a3, a4, 255] sign delay m)) = (if sign then 1 else 4)"
    by (simp add: fade_init_sentinels)
next
  fix k step r mm
  assume reach: "fade_reach [0, a1, a2, a3, a4, 255] sign delay
      (fade_init [0, a1, a2, a3, a4, 255] sign delay m) (k, step, r, mm)"
  have inv: "1 \<le> unat step" "unat step \<le> (if sign then 5 else 4)"
    using fade_reach_inv [OF reach] by simp_all
  show "1 \<le> step"
    using inv by (simp add: word_le_nat_alt)
  show "step \<le> (if sign then 5 else 4)"
    using inv by (simp add: word_le_nat_alt split: if_splits)
  assume "k < 128"
  from fade_round_word [OF reach this]
  show "\<exists>k' step' r' m'. fade_body [0, a1, a2, a3, a4, 255] sign delay (k, step, r, mm)
              = Inr (k', step', r', m') \<and>
            (if sign then step \<le> step' else step' \<le> step)"
    by blast
qed

theorem fade_step_range_witness:
  "fst (snd (fade_init accelerationPoints False 500 mcu0)) = 4 \<and>
   (\<exists>k' step' r' m'. fade_body accelerationPoints False 500
        (fade_init accelerationPoints False 500 mcu0) = Inr (k', step', r', m') \<and> step' \<le> 4)"
proof -
  have reach: "fade_reach [0, 30, 60, 80, 10, 255] False 500
          (fade_init [0, 30, 60, 80, 10, 255] False 500 mcu0)
          (1, 4, ucast (c_mod 500 64), mcu0)"
    using fade_reach.start [of "[0, 30, 60, 80, 10, 255]" False 500
        "fade_init [0, 30, 60, 80, 10, 255] False 500 mcu0"]
    by (simp add: fade_init_sentinels)
  have k: "(1 :: uint8_t) < 128"
    by simp
  from fade_step_range [of 30 60 80 10 False 500 mcu0] reach k show ?thesis
    by (simp add: accelerationPoints_sentinels fade_init_sentinels)
qed

text \<open>
  C5 (as stated) fails: brightening with the table of line 32, the step is 5 when the
  loop ends, above the 4 interior entries.
\<close>

theorem fade_step_exceeds_maxStep:
  "\<exists>k r m'. fade_reach accelerationPoints True 500 (fade_init accelerationPoints True 500 mcu0)
      (k, 5, r, m') \<and> \<not> (5 :: uint8_t) \<le> of_nat (length accelerationPoints) - 2"
proof -
  have "fade_reach accelerationPoints True 500 (fade_init accelerationPoints True 500 mcu0)
          (1, 1, ucast (c_mod 500 64), mcu0)"
    using fade_reach.start [of accelerationPoints True 500
        "fade_init accelerationPoints True 500 mcu0"]
    by (simp add: fade_init_shipped)
  from fade_reach_steps [OF bright_steps this]
  have "fade_reach accelerationPoints True 500 (fade_init accelerationPoints True 500 mcu0)
          (131, 5, fade_rounds 500 bright_values (ucast (c_mod 500 64)) mcu0)" .
  moreover have "\<not> (5 :: uint8_t) \<le> of_nat (length accelerationPoints) - 2"
    by (simp add: accelerationPoints_def)
  ultimately show ?thesis
    by (metis prod.collapse)
qed

text \<open>
  C9. With the table of line 32 a fade ends without a read outside the table, and whenever
  its loop stands at its condition the step is between 1 and 5 and the index read next
  (\<open>step\<close> when brightening, \<open>step - 1\<close> when dimming) is inside the table: at most 5
  when brightening, at least 0 when dimming.
\<close>

theorem fade_table_reads_in_bounds:
  "(\<exists>mf. fade accelerationPoints sign delay m = Some (Inr mf)) \<and>
   (\<forall>k step r mm.
      fade_reach accelerationPoints sign delay
        (fade_init accelerationPoints sign delay m) (k, step, r, mm) \<longrightarrow>
      1 \<le> step \<and> step \<le> 5 \<and>
      (if sign then uint step \<le> 5 else 0 \<le> uint step - 1) \<and>
      (\<exists>p. at_index accelerationPoints (if sign then uint step else uint step - 1) = Inr p))"
proof (intro conjI allI impI)
  show "\<exists>mf. fade accelerationPoints sign delay m = Some (Inr mf)"
    by (simp add: fade_shipped)
next
  fix k step r mm
  assume reach: "fade_reach accelerationPoints sign delay
      (fade_init accelerationPoints sign delay m) (k, step, r, mm)"
  have inv: "1 \<le> unat step" "unat step \<le> (if sign then 5 else 4)"
    using fade_reach_inv [OF reach [unfolded accelerationPoints_sentinels]] by simp_all
  moreover have "int (unat step) = uint step"
    by simp
  ultimately have u: "1 \<le> uint step" "uint step \<le> (if sign then 5 else 4)"
    by (cases sign; simp; linarith)+
  show "1 \<le> step" "step \<le> 5"
    using inv by (simp_all add: word_le_nat_alt split: if_splits)
  show "if sign then uint step \<le> 5 else 0 \<le> uint step - 1"
    using u by (simp split: if_splits)
  show "\<exists>p. at_index accelerationPoints (if sign then uint step else uint step - 1) = Inr p"
    using u by (simp add: at_index_def accelerationPoints_def split: if_splits)
qed

theorem fade_table_reads_in_bounds_witness:
  "(\<exists>mf. fade accelerationPoints False 500 mcu0 = Some (Inr mf)) \<and>
   (\<exists>p. at_index accelerationPoints (uint (4 :: uint8_t) - 1) = Inr p)"
proof -
  have "fade_reach accelerationPoints False 500 (fade_init accelerationPoints False 500 mcu0)
          (1, 4, ucast (c_mod 500 64), mcu0)"
    using fade_reach.start [of accelerationPoints False 500
        "fade_init accelerationPoints False 500 mcu0"]
    by (simp add: fade_init_shipped)
  moreover from fade_table_reads_in_bounds [of False 500 mcu0]
  have "\<exists>mf. fade accelerationPoints False 500 mcu0 = Some (Inr mf)"
    and "\<forall>k step r mm.
      fade_reach accelerationPoints False 500
        (fade_init accelerationPoints False 500 mcu0) (k, step, r, mm) \<longrightarrow>
      1 \<le> step \<and> step \<le> 5 \<and>
      (if False then uint step \<le> 5 else 0 \<le> uint step - 1) \<and>
      (\<exists>p. at_index accelerationPoints (if False then uint step else uint step - 1) = Inr p)"
    by blast+
  ultimately show ?thesis
    by (metis (full_types))
qed

lemma fade_loop_reach:
  assumes "fade_reach ap sign delay s0 s"
  shows "fade_loop ap sign delay s = fade_loop ap sign delay s0"
  using assms
proof (induction rule: fade_reach.induct)
  case start
  show ?case ..
next
  case (round s s')
  have "fade_loop ap sign delay s = fade_loop ap sign delay s'"
    using round.hyps(2,3) by (subst fade_loop.simps) simp
  then show ?case
    using round.IH by simp
qed

text \<open>
  C10. With the table of line 32 the loop of a fade ends, whatever the duration and the
  direction: run from the state the fade enters it with, it returns, by way of its rounds,
  a state in which \<open>k\<close> is 128 or more, and the fade returns the machine of that state.
  Every round that is entered leaves a step of at least 1 and a larger \<open>k\<close>, and the run
  of the loop from before the round is its run from after it.
\<close>

theorem fade_terminates:
  "(\<exists>kf stepf rf mf.
      fade_loop accelerationPoints sign delay (fade_init accelerationPoints sign delay m)
        = Some (Inr (kf, stepf, rf, mf)) \<and>
      128 \<le> kf \<and>
      fade_reach accelerationPoints sign delay
        (fade_init accelerationPoints sign delay m) (kf, stepf, rf, mf) \<and>
      fade accelerationPoints sign delay m = Some (Inr mf)) \<and>
   (\<forall>k step r mm.
      fade_reach accelerationPoints sign delay
        (fade_init accelerationPoints sign delay m) (k, step, r, mm) \<longrightarrow>
      k < 128 \<longrightarrow>
      (\<exists>k' step' r' m'. fade_body accelerationPoints sign delay (k, step, r, mm)
           = Inr (k', step', r', m') \<and> 1 \<le> step' \<and> k < k' \<and>
         fade_loop accelerationPoints sign delay (k, step, r, mm)
           = fade_loop accelerationPoints sign delay (k', step', r', m') \<and>
         fade_loop accelerationPoints sign delay (k', step', r', m')
           = fade_loop accelerationPoints sign delay (fade_init accelerationPoints sign delay m)))"
proof (intro conjI allI impI)
  define vs where "vs = (if sign then bright_values else dim_values)"
  define kf :: uint8_t where "kf = (if sign then 131 else 128)"
  define stepf :: uint8_t where "stepf = (if sign then 5 else 1)"
  define fin where "fin = fade_rounds delay vs (ucast (c_mod delay 64)) m"
  have steps: "fade_steps 64 accelerationPoints sign 1 (if sign then 1 else 4) = Some (vs, kf, stepf)"
    using bright_steps dim_steps by (simp add: vs_def kf_def stepf_def)
  have loop: "fade_loop accelerationPoints sign delay (fade_init accelerationPoints sign delay m)
      = Some (Inr (kf, stepf, fin))"
    unfolding fade_init_shipped fin_def by (rule fade_loop_steps [OF steps])
  have "fade_reach accelerationPoints sign delay (fade_init accelerationPoints sign delay m)
      (1, if sign then 1 else 4, ucast (c_mod delay 64), m)"
    using fade_reach.start [of accelerationPoints sign delay
        "fade_init accelerationPoints sign delay m"]
    by (simp add: fade_init_shipped)
  from fade_reach_steps [OF steps this]
  have reach: "fade_reach accelerationPoints sign delay
      (fade_init accelerationPoints sign delay m) (kf, stepf, fin)"
    by (simp add: fin_def)
  have k: "128 \<le> kf"
    by (simp add: kf_def)
  have "fade accelerationPoints sign delay m = Some (Inr (snd fin))"
    by (simp add: fade_def loop split: prod.splits)
  with loop reach k
  show "\<exists>kf stepf rf mf.
      fade_loop accelerationPoints sign delay (fade_init accelerationPoints sign delay m)
        = Some (Inr (kf, stepf, rf, mf)) \<and>
      128 \<le> kf \<and>
      fade_reach accelerationPoints sign delay
        (fade_init accelerationPoints sign delay m) (kf, stepf, rf, mf) \<and>
      fade accelerationPoints sign delay m = Some (Inr mf)"
    by (metis prod.collapse)
next
  fix k step r mm
  assume reach: "fade_reach accelerationPoints sign delay
      (fade_init accelerationPoints sign delay m) (k, step, r, mm)" and k: "k < 128"
  from fade_round_word [OF reach [unfolded accelerationPoints_sentinels] k]
  obtain k' step' r' m' where
    body: "fade_body accelerationPoints sign delay (k, step, r, mm) = Inr (k', step', r', m')" and
    prog: "1 \<le> step'" "k < k'"
    unfolding accelerationPoints_sentinels by blast
  have "fade_reach accelerationPoints sign delay
      (fade_init accelerationPoints sign delay m) (k', step', r', m')"
    using reach k body by (auto intro: fade_reach.round)
  from fade_loop_reach [OF this] fade_loop_reach [OF reach] body prog
  show "\<exists>k' step' r' m'. fade_body accelerationPoints sign delay (k, step, r, mm)
           = Inr (k', step', r', m') \<and> 1 \<le> step' \<and> k < k' \<and>
         fade_loop accelerationPoints sign delay (k, step, r, mm)
           = fade_loop accelerationPoints sign delay (k', step', r', m') \<and>
         fade_loop accelerationPoints sign delay (k', step', r', m')
           = fade_loop accelerationPoints sign delay (fade_init accelerationPoints sign delay m)"
    by simp
qed

theorem fade_terminates_witness:
  "(\<exists>kf stepf rf mf.
      fade_loop accelerationPoints True 128 (1, 1, 0, mcu0) = Some (Inr (kf, stepf, rf, mf)) \<and>
      128 \<le> kf \<and> fade accelerationPoints True 128 mcu0 = Some (Inr mf)) \<and>
   (\<exists>k' step' r' m'. fade_body accelerationPoints True 128 (1, 1, 0, mcu0)
        = Inr (k', step', r', m') \<and> 1 \<le> step' \<and> 1 < k' \<and>
      fade_loop accelerationPoints True 128 (1, 1, 0, mcu0)
        = fade_loop accelerationPoints True 128 (k', step', r', m'))"
proof -
  have init: "fade_init accelerationPoints True 128 mcu0 = (1, 1, 0, mcu0)"
    by (simp add: fade_init_shipped c_mod_def)
  have reach: "fade_reach accelerationPoints True 128 (fade_init accelerationPoints True 128 mcu0)
          (1, 1, 0, mcu0)"
    using fade_reach.start [of accelerationPoints True 128
        "fade_init accelerationPoints True 128 mcu0"]
    by (simp add: init)
  have k: "(1 :: uint8_t) < 128"
    by simp
  from fade_terminates [of True 128 mcu0] reach k show ?thesis
    unfolding init by blast
qed

section \<open>The counter against the handler\<close>

lemma in_step_refl: "in_step m m"
  by (simp add: in_step_def)

lemma in_step_trans:
  assumes "in_step a b" "in_step b c"
  shows "in_step a c"
proof -
  have le: "handler_runs a \<le> handler_runs b" "handler_runs b \<le> handler_runs c"
    using assms by (simp_all add: in_step_def)
  then have "handler_runs c - handler_runs a =
      (handler_runs b - handler_runs a) + (handler_runs c - handler_runs b)"
    by simp
  then have "(word_of_nat (handler_runs c - handler_runs a) :: 16 word) =
      word_of_nat (handler_runs b - handler_runs a) + word_of_nat (handler_runs c - handler_runs b)"
    by (simp only: of_nat_add)
  then show ?thesis
    using assms le by (simp add: in_step_def)
qed

lemma in_step_same:
  assumes "ticks m' = ticks m" "handler_runs m' = handler_runs m"
  shows "in_step m m'" "in_step m' c \<longleftrightarrow> in_step m c" "in_step a m' \<longleftrightarrow> in_step a m"
  using assms by (simp_all add: in_step_def)

lemma in_step_handler: "in_step m (TIM0_OVF_vect m)"
  by (simp add: in_step_def TIM0_OVF_vect_def)

lemma in_step_sleep: "in_step m (sleep d m)"
proof -
  define f where "f = (if ticks m + 1 < ticks m + d then ticks m + d else ticks m + 1)"
  have "(word_of_nat (Suc (unat (f - (ticks m + 1)))) :: 16 word) = f - ticks m"
    by simp
  then show ?thesis
    by (simp add: in_step_def sleep_eq f_def [symmetric])
qed

lemma in_step_setPwm: "in_step m (setPwmDutyCycle v m)"
  by (simp add: in_step_def)

lemma in_step_fade_sleep: "in_step m (snd (fade_sleep delay r m))"
  by (simp add: fade_sleep_def in_step_sleep)

lemma in_step_fade_rounds: "in_step m (snd (fade_rounds delay vs r m))"
proof (induction vs arbitrary: r m)
  case Nil
  show ?case by (simp add: in_step_refl)
next
  case (Cons v vs)
  obtain r1 m1 where fs: "fade_sleep delay r (setPwmDutyCycle (ucast v) m) = (r1, m1)"
    by (cases "fade_sleep delay r (setPwmDutyCycle (ucast v) m)")
  have "in_step (setPwmDutyCycle (ucast v) m) m1"
    using in_step_fade_sleep [of "setPwmDutyCycle (ucast v) m" delay r] by (simp add: fs)
  then have "in_step m m1"
    by (rule in_step_trans [OF in_step_setPwm])
  then have "in_step m (snd (fade_rounds delay vs r1 m1))"
    using Cons.IH by (rule in_step_trans)
  then show ?case
    by (simp add: fs)
qed

lemma in_step_fade:
  "\<exists>m'. fade accelerationPoints sign delay m = Some (Inr m') \<and> in_step m m'"
  by (simp add: fade_shipped in_step_fade_rounds)

lemma in_step_play_note:
  "\<exists>st' m'. play_note accelerationPoints x (st, m) = Some (Inr (st', m')) \<and> in_step m m' \<and>
     pattern_reads (trace m') = pattern_reads (trace m)"
  by (auto simp: play_note_def fade_shipped fade_rounds_pattern_reads in_step_fade_rounds
      in_step_sleep in_step_setPwm split: prod.splits)

section \<open>The ticks of a note\<close>

lemma fade_sleep_ticks:
  assumes nonneg: "0 \<le> sint delay" and big: "64 \<le> unat delay"
    and room: "unat (ticks m) + (unat delay div 64 + (if r \<noteq> 0 then 1 else 0)) < 65536"
  shows "unat (ticks (snd (fade_sleep delay r m))) =
           unat (ticks m) + (unat delay div 64 + (if r \<noteq> 0 then 1 else 0)) \<and>
         handler_runs (snd (fade_sleep delay r m)) =
           handler_runs m + (unat delay div 64 + (if r \<noteq> 0 then 1 else 0))"
proof -
  have b: "unat (c_div delay 64) = unat delay div 64"
    by (rule c_div_64 [OF nonneg])
  have pos: "1 \<le> unat delay div 64"
    using big by (simp add: Suc_le_eq div_greater_zero_iff)
  have "unat delay div 64 < 512"
    using sint_nonneg_unat [OF nonneg] by simp
  then have "unat (c_div delay 64) + unat (1 :: 16 word) < 2 ^ LENGTH(16)"
    by (simp add: b)
  then have b1: "unat (c_div delay 64 + 1) = unat delay div 64 + 1"
    by (simp add: unat_add_lem [THEN iffD1] b)
  show ?thesis
  proof (cases "r = 0")
    case True
    have "c_div delay 64 \<noteq> 0"
      using pos b by auto
    moreover have "unat (ticks m) + unat (c_div delay 64) < 65536"
      using room True by (simp add: b)
    ultimately show ?thesis
      using True by (simp add: fade_sleep_def sleep_unat_ticks sleep_handler_runs b)
  next
    case False
    have "c_div delay 64 + 1 \<noteq> 0"
      using b1 by auto
    moreover have "unat (ticks m) + unat (c_div delay 64 + 1) < 65536"
      using room False by (simp add: b1)
    ultimately show ?thesis
      using False by (simp add: fade_sleep_def sleep_unat_ticks sleep_handler_runs b1)
  qed
qed

lemma schedule_step:
  fixes n b :: nat and r :: "8 word"
  shows "(b + (if r \<noteq> 0 then 1 else 0)) + (n * b + min n (unat (if r \<noteq> 0 then r - 1 else r))) =
         Suc n * b + min (Suc n) (unat r)"
proof (cases "r = 0")
  case True
  then show ?thesis by simp
next
  case False
  then have "unat r = Suc (unat (r - 1))"
    by (simp add: unat_minus_one unat_gt_0)
  then show ?thesis
    using False by simp
qed

lemma fade_rounds_ticks:
  assumes nonneg: "0 \<le> sint delay" and big: "64 \<le> unat delay"
    and room: "unat (ticks m) + (length vs * (unat delay div 64) + min (length vs) (unat r)) < 65536"
  shows "unat (ticks (snd (fade_rounds delay vs r m))) =
           unat (ticks m) + (length vs * (unat delay div 64) + min (length vs) (unat r)) \<and>
         handler_runs (snd (fade_rounds delay vs r m)) =
           handler_runs m + (length vs * (unat delay div 64) + min (length vs) (unat r))"
  using room
proof (induction vs arbitrary: r m)
  case Nil
  then show ?case by simp
next
  case (Cons v vs)
  define d1 where "d1 = unat delay div 64 + (if r \<noteq> 0 then 1 else 0)"
  define r1 where "r1 = (if r \<noteq> 0 then r - 1 else r)"
  define m0 where "m0 = setPwmDutyCycle (ucast v) m"
  define m1 where "m1 = snd (fade_sleep delay r m0)"
  have split: "d1 + (length vs * (unat delay div 64) + min (length vs) (unat r1)) =
               length (v # vs) * (unat delay div 64) + min (length (v # vs)) (unat r)"
    unfolding d1_def r1_def using schedule_step [of "unat delay div 64" r "length vs"] by simp
  have fs: "fade_sleep delay r m0 = (r1, m1)"
    using fade_sleep_fst [of delay r m0] by (simp add: r1_def m1_def prod_eq_iff)
  have unfold: "fade_rounds delay (v # vs) r m = fade_rounds delay vs r1 m1"
    by (simp add: fs m0_def [symmetric])
  have t0: "unat (ticks m0) = unat (ticks m)" "handler_runs m0 = handler_runs m"
    by (simp_all add: m0_def)
  have "unat (ticks m0) + d1 < 65536"
    using Cons.prems split t0 by linarith
  then have t1: "unat (ticks m1) = unat (ticks m) + d1" "handler_runs m1 = handler_runs m + d1"
    unfolding m1_def d1_def using fade_sleep_ticks [OF nonneg big, of m0 r] t0 by simp_all
  have "unat (ticks m1) + (length vs * (unat delay div 64) + min (length vs) (unat r1)) < 65536"
    using Cons.prems split t1 by linarith
  then have "unat (ticks (snd (fade_rounds delay vs r1 m1))) =
             unat (ticks m1) + (length vs * (unat delay div 64) + min (length vs) (unat r1)) \<and>
           handler_runs (snd (fade_rounds delay vs r1 m1)) =
             handler_runs m1 + (length vs * (unat delay div 64) + min (length vs) (unat r1))"
    by (rule Cons.IH)
  then show ?case
    unfolding unfold using t1 split by linarith
qed

lemma fade_ticks:
  assumes big: "128 \<le> sint delay" and room: "unat (ticks m) + unat delay < 65536"
  shows "\<exists>m'. fade accelerationPoints sign delay m = Some (Inr m') \<and>
           unat (ticks m) + 124 \<le> unat (ticks m') \<and>
           unat (ticks m') \<le> unat (ticks m) + unat delay \<and>
           handler_runs m' + unat (ticks m) = handler_runs m + unat (ticks m') \<and>
           pattern_reads (trace m') = pattern_reads (trace m)"
proof -
  have nonneg: "0 \<le> sint delay"
    using big by simp
  have "int (unat delay) = sint delay"
    using sint_nonneg_uint [OF nonneg] by simp
  then have big': "128 \<le> unat delay"
    using big by linarith
  define vs where "vs = (if sign then bright_values else dim_values)"
  define n where "n = length vs"
  define b where "b = unat delay div 64"
  define r :: "8 word" where "r = ucast (c_mod delay 64)"
  have n: "62 \<le> n" "n \<le> 63"
    by (simp_all add: n_def vs_def bright_values_facts dim_values_facts)
  have r: "unat r = unat delay mod 64"
    unfolding r_def by (rule c_mod_64 [OF nonneg])
  have b2: "2 \<le> b"
    unfolding b_def using big' by (simp add: le_div_geq)
  have d: "unat delay = 64 * b + unat r"
    unfolding b_def r by simp
  have "n * b \<le> 63 * b"
    using n(2) by (rule mult_le_mono1)
  moreover have "min n (unat r) \<le> unat r"
    by simp
  ultimately have hi: "n * b + min n (unat r) \<le> unat delay"
    using d by linarith
  have "62 * 2 \<le> n * b"
    using n(1) b2 by (rule mult_le_mono)
  then have lo: "124 \<le> n * b + min n (unat r)"
    by simp
  have "unat (ticks m) + (length vs * (unat delay div 64) + min (length vs) (unat r)) < 65536"
    using hi room by (simp add: n_def [symmetric] b_def [symmetric])
  from fade_rounds_ticks [OF nonneg _ this] big'
  have "unat (ticks (snd (fade_rounds delay vs r m))) = unat (ticks m) + (n * b + min n (unat r))"
    "handler_runs (snd (fade_rounds delay vs r m)) = handler_runs m + (n * b + min n (unat r))"
    by (simp_all add: n_def b_def)
  then show ?thesis
    using hi lo by (simp add: fade_shipped vs_def [symmetric] r_def [symmetric] fade_rounds_pattern_reads)
qed

lemma magnitude_pos:
  assumes "0 <s magnitude x"
  shows "0 < sint (magnitude x)" "int (unat (magnitude x)) = sint (magnitude x)"
    "magnitude x \<noteq> 0" "unat (magnitude x) < 32768"
proof -
  show pos: "0 < sint (magnitude x)"
    using assms by (simp add: word_sless_alt)
  then have nonneg: "0 \<le> sint (magnitude x)"
    by simp
  show "int (unat (magnitude x)) = sint (magnitude x)"
    using sint_nonneg_uint [OF nonneg] by simp
  show "magnitude x \<noteq> 0"
    using pos by auto
  show "unat (magnitude x) < 32768"
    by (rule sint_nonneg_unat [OF nonneg])
qed

lemma play_note_ticks:
  assumes ok: "0 <s magnitude x" and room: "unat (ticks m) + unat (magnitude x) < 65536"
  shows "\<exists>m'. play_note accelerationPoints x (st, m) = Some (Inr (\<not> x <s 0, m')) \<and>
           unat (ticks m) + (if st = (\<not> x <s 0) then unat (magnitude x)
                             else if 128 \<le> unat (magnitude x) then 124 else 0) \<le> unat (ticks m') \<and>
           unat (ticks m') \<le> unat (ticks m) + unat (magnitude x) \<and>
           handler_runs m' + unat (ticks m) = handler_runs m + unat (ticks m') \<and>
           pattern_reads (trace m') = pattern_reads (trace m)"
proof -
  define d where "d = magnitude x"
  define sign where "sign = (\<not> x <s 0)"
  have pair: "(if x <s 0 then (- x, False) else (x, True)) = (d, sign)"
    by (simp add: d_def sign_def magnitude_def)
  note mp = magnitude_pos [OF ok, folded d_def]
  have room': "unat (ticks m) + unat d < 65536"
    using room by (simp add: d_def)
  show ?thesis
  proof (cases "st = sign")
    case True
    have "unat (ticks (sleep d m)) = unat (ticks m) + unat d"
      using mp(3) room' by (rule sleep_unat_ticks)
    moreover have "handler_runs (sleep d m) = handler_runs m + unat d"
      using mp(3) room' by (rule sleep_handler_runs)
    ultimately show ?thesis
      using True by (simp add: play_note_def pair d_def [symmetric] sign_def [symmetric])
  next
    case False
    show ?thesis
    proof (cases "d <s 128")
      case True
      then have "sint d < 128"
        by (simp add: word_sless_alt)
      then have "\<not> 128 \<le> unat d"
        using mp(2) by linarith
      then show ?thesis
        using False True by (simp add: play_note_def pair d_def [symmetric] sign_def [symmetric])
    next
      case ge: False
      then have big: "128 \<le> sint d"
        by (simp add: word_sless_alt)
      then have "128 \<le> unat d"
        using mp(2) by linarith
      moreover from fade_ticks [OF big room', of sign] obtain m' where
        "fade accelerationPoints sign d m = Some (Inr m')"
        "unat (ticks m) + 124 \<le> unat (ticks m')"
        "unat (ticks m') \<le> unat (ticks m) + unat d"
        "handler_runs m' + unat (ticks m) = handler_runs m + unat (ticks m')"
        "pattern_reads (trace m') = pattern_reads (trace m)"
        by blast
      ultimately show ?thesis
        using False ge by (simp add: play_note_def pair d_def [symmetric] sign_def [symmetric])
    qed
  qed
qed

section \<open>A pass over a pattern\<close>

lemma uint_index:
  assumes "j < 256"
  shows "uint (word_of_nat j :: 8 word) = int j"
proof -
  have "unat (word_of_nat j :: 8 word) = j"
    using assms by (simp add: unat_of_nat)
  then have "int (unat (word_of_nat j :: 8 word)) = int j"
    by simp
  then show ?thesis
    by simp
qed

lemma at_index_nat:
  assumes "j < length xs"
  shows "at_index xs (int j) = Inr (xs ! j)"
  using assms by (simp add: at_index_def)

lemma notes_of_nth:
  assumes "j < length (notes_of pat)"
  shows "pat ! j = notes_of pat ! j" "pat ! j \<noteq> 0"
proof -
  show eq: "pat ! j = notes_of pat ! j"
    using assms by (simp add: notes_of_def takeWhile_nth)
  have "notes_of pat ! j \<in> set (takeWhile (\<lambda>x. x \<noteq> 0) pat)"
    using assms by (simp add: notes_of_def)
  then show "pat ! j \<noteq> 0"
    unfolding eq by (auto dest: set_takeWhileD)
qed

lemma notes_of_end:
  assumes "length (notes_of pat) < length pat"
  shows "pat ! length (notes_of pat) = 0"
  using nth_length_takeWhile [of "\<lambda>x. x \<noteq> 0" pat] assms by (simp add: notes_of_def)

lemma notes_loop_end:
  assumes "at_index pat (uint j) = Inr 0"
  shows "notes_loop ap pat j s =
           Some (Inr (fst s, (snd s)\<lparr>trace := trace (snd s) @ [PatternRead (uint j)]\<rparr>))"
  by (subst notes_loop.simps) (simp add: assms)

lemma notes_loop_note:
  assumes "at_index pat (uint j) = Inr x" "x \<noteq> 0"
    and "play_note ap x (fst s, (snd s)\<lparr>trace := trace (snd s) @ [PatternRead (uint j), PatternRead (uint j)]\<rparr>)
           = Some (Inr s')"
  shows "notes_loop ap pat j s = notes_loop ap pat (j + 1) s'"
  by (subst notes_loop.simps) (simp add: assms Let_def)

lemma notes_loop_run:
  assumes ok: "pattern_ok pat"
  shows "j \<le> length (notes_of pat) \<Longrightarrow>
         unat (ticks (snd s)) + ticks_max (drop j (notes_of pat)) < 65536 \<Longrightarrow>
         \<exists>s'. notes_loop accelerationPoints pat (word_of_nat j) s = Some (Inr s') \<and>
           pattern_reads (trace (snd s')) =
             pattern_reads (trace (snd s))
               @ concat (map (\<lambda>i. [int i, int i]) [j ..< length (notes_of pat)])
               @ [int (length (notes_of pat))] \<and>
           unat (ticks (snd s)) + ticks_min (fst s) (drop j (notes_of pat)) \<le> unat (ticks (snd s')) \<and>
           unat (ticks (snd s')) \<le> unat (ticks (snd s)) + ticks_max (drop j (notes_of pat)) \<and>
           handler_runs (snd s') + unat (ticks (snd s)) = handler_runs (snd s) + unat (ticks (snd s'))"
proof (induction "length (notes_of pat) - j" arbitrary: j s)
  case 0
  define n where "n = length (notes_of pat)"
  have jn: "j = n"
    using 0 by (simp add: n_def)
  have n: "n < length pat" "n < 256"
    using ok by (simp_all add: pattern_ok_def n_def)
  have "at_index pat (uint (word_of_nat j :: 8 word)) = Inr 0"
    using n notes_of_end [of pat] by (simp add: jn uint_index at_index_nat n_def)
  from notes_loop_end [OF this, of accelerationPoints s]
  show ?case
    using n by (simp add: jn uint_index n_def [symmetric] ticks_max_def)
next
  case (Suc d)
  define n where "n = length (notes_of pat)"
  have jn: "j < n"
    using Suc.hyps(2) by (simp add: n_def)
  have n: "n < length pat" "n < 256"
    using ok by (simp_all add: pattern_ok_def n_def)
  define x where "x = pat ! j"
  have x: "x = notes_of pat ! j" "x \<noteq> 0"
    using notes_of_nth [of j pat] jn by (simp_all add: x_def n_def)
  have "list_all (\<lambda>x. 0 <s magnitude x) (notes_of pat)"
    using ok by (simp add: pattern_ok_def)
  then have mag: "0 <s magnitude x"
    using jn by (simp add: list_all_length x(1) n_def)
  have idx: "uint (word_of_nat j :: 8 word) = int j"
    using jn n by (simp add: uint_index)
  have read: "at_index pat (uint (word_of_nat j :: 8 word)) = Inr x"
    using jn n by (simp add: idx at_index_nat x_def)
  have dr: "drop j (notes_of pat) = x # drop (Suc j) (notes_of pat)"
    using jn by (simp add: x(1) n_def Cons_nth_drop_Suc)
  have tmax: "ticks_max (drop j (notes_of pat)) =
              unat (magnitude x) + ticks_max (drop (Suc j) (notes_of pat))"
    by (simp add: dr ticks_max_def)
  have tmin: "ticks_min (fst s) (drop j (notes_of pat)) =
              (if fst s = (\<not> x <s 0) then unat (magnitude x)
               else if 128 \<le> unat (magnitude x) then 124 else 0)
                + ticks_min (\<not> x <s 0) (drop (Suc j) (notes_of pat))"
    by (simp add: dr)
  define m2 where "m2 = (snd s)\<lparr>trace := trace (snd s) @ [PatternRead (int j), PatternRead (int j)]\<rparr>"
  have m2: "ticks m2 = ticks (snd s)"
    "pattern_reads (trace m2) = pattern_reads (trace (snd s)) @ [int j, int j]"
    "handler_runs m2 = handler_runs (snd s)"
    by (simp_all add: m2_def)
  define st' where "st' = (\<not> x <s 0)"
  have "unat (ticks m2) + unat (magnitude x) < 65536"
    using Suc.prems(2) tmax m2(1) by simp
  from play_note_ticks [OF mag this, of "fst s"] obtain m' where
    play: "play_note accelerationPoints x (fst s, m2) = Some (Inr (st', m'))" and
    lo: "unat (ticks m2) + (if fst s = st' then unat (magnitude x)
                            else if 128 \<le> unat (magnitude x) then 124 else 0) \<le> unat (ticks m')" and
    hi: "unat (ticks m') \<le> unat (ticks m2) + unat (magnitude x)" and
    hr: "handler_runs m' + unat (ticks m2) = handler_runs m2 + unat (ticks m')" and
    rd: "pattern_reads (trace m') = pattern_reads (trace m2)"
    unfolding st'_def by blast
  have step: "notes_loop accelerationPoints pat (word_of_nat j) s =
              notes_loop accelerationPoints pat (word_of_nat (Suc j)) (st', m')"
    using notes_loop_note [OF read x(2), of accelerationPoints s "(st', m')"] play
    by (simp add: idx m2_def add.commute)
  have "d = length (notes_of pat) - Suc j"
    using Suc.hyps(2) by simp
  moreover have "Suc j \<le> length (notes_of pat)"
    using jn by (simp add: n_def)
  moreover have "unat (ticks (snd (st', m'))) + ticks_max (drop (Suc j) (notes_of pat)) < 65536"
    using Suc.prems(2) tmax hi m2(1) by simp
  ultimately obtain s' where
    run: "notes_loop accelerationPoints pat (word_of_nat (Suc j)) (st', m') = Some (Inr s')" and
    rd': "pattern_reads (trace (snd s')) =
            pattern_reads (trace m')
              @ concat (map (\<lambda>i. [int i, int i]) [Suc j ..< length (notes_of pat)])
              @ [int (length (notes_of pat))]" and
    lo': "unat (ticks m') + ticks_min st' (drop (Suc j) (notes_of pat)) \<le> unat (ticks (snd s'))" and
    hi': "unat (ticks (snd s')) \<le> unat (ticks m') + ticks_max (drop (Suc j) (notes_of pat))" and
    hr': "handler_runs (snd s') + unat (ticks m') = handler_runs m' + unat (ticks (snd s'))"
    using Suc.hyps(1) [of "Suc j" "(st', m')"] by auto
  have upt: "[j ..< length (notes_of pat)] = j # [Suc j ..< length (notes_of pat)]"
    using jn by (simp add: n_def upt_conv_Cons)
  have "pattern_reads (trace (snd s')) =
          pattern_reads (trace (snd s))
            @ concat (map (\<lambda>i. [int i, int i]) [j ..< length (notes_of pat)])
            @ [int (length (notes_of pat))]"
    unfolding upt by (simp add: rd' rd m2(2))
  moreover have "unat (ticks (snd s)) + ticks_min (fst s) (drop j (notes_of pat)) \<le> unat (ticks (snd s'))"
    using lo lo' m2(1) unfolding tmin st'_def by simp
  moreover have "unat (ticks (snd s')) \<le> unat (ticks (snd s)) + ticks_max (drop j (notes_of pat))"
    using hi hi' m2(1) unfolding tmax by simp
  moreover have "handler_runs (snd s') + unat (ticks (snd s)) =
      handler_runs (snd s) + unat (ticks (snd s'))"
    using hr hr' m2(1,3) by simp
  ultimately show ?case
    unfolding step run by blast
qed

lemma pass_run:
  assumes ok: "pattern_ok pat" and t: "unat (ticks (snd s)) < 30000"
  shows "\<exists>s'. notes_loop accelerationPoints pat 0 s = Some (Inr s') \<and>
           pattern_reads (trace (snd s')) = pattern_reads (trace (snd s)) @ pass_reads pat \<and>
           unat (ticks (snd s)) < unat (ticks (snd s')) \<and>
           handler_runs (snd s') + unat (ticks (snd s)) = handler_runs (snd s) + unat (ticks (snd s'))"
proof -
  have "ticks_max (notes_of pat) \<le> 35535"
    using ok by (simp_all add: pattern_ok_def)
  then have "unat (ticks (snd s)) + ticks_max (drop 0 (notes_of pat)) < 65536"
    using t by simp
  from notes_loop_run [OF ok _ this] obtain s' where
    "notes_loop accelerationPoints pat 0 s = Some (Inr s')"
    "pattern_reads (trace (snd s')) = pattern_reads (trace (snd s)) @ pass_reads pat"
    "unat (ticks (snd s)) + ticks_min (fst s) (notes_of pat) \<le> unat (ticks (snd s'))"
    "handler_runs (snd s') + unat (ticks (snd s)) = handler_runs (snd s) + unat (ticks (snd s'))"
    by (auto simp: pass_reads_def)
  moreover have "1 \<le> ticks_min (fst s) (notes_of pat)"
    using ok by (cases "fst s") (simp_all add: pattern_ok_def)
  ultimately show ?thesis
    by (intro exI [of _ s']) simp
qed

lemma notes_loop_reads:
  assumes n: "length (notes_of pat) < length pat" "length (notes_of pat) < 256"
  shows "j \<le> length (notes_of pat) \<Longrightarrow>
         \<exists>s'. notes_loop accelerationPoints pat (word_of_nat j) s = Some (Inr s') \<and>
           pattern_reads (trace (snd s')) =
             pattern_reads (trace (snd s))
               @ concat (map (\<lambda>i. [int i, int i]) [j ..< length (notes_of pat)])
               @ [int (length (notes_of pat))] \<and>
           in_step (snd s) (snd s')"
proof (induction "length (notes_of pat) - j" arbitrary: j s)
  case 0
  then have jn: "j = length (notes_of pat)"
    by simp
  have "at_index pat (uint (word_of_nat j :: 8 word)) = Inr 0"
    using n notes_of_end [of pat] by (simp add: jn uint_index at_index_nat)
  from notes_loop_end [OF this, of accelerationPoints s]
  show ?case
    using n by (simp add: jn uint_index in_step_same(1))
next
  case (Suc d)
  have jn: "j < length (notes_of pat)"
    using Suc.hyps(2) by simp
  define x where "x = pat ! j"
  have x: "x \<noteq> 0"
    using notes_of_nth [of j pat] jn by (simp_all add: x_def)
  have idx: "uint (word_of_nat j :: 8 word) = int j"
    using jn n by (simp add: uint_index)
  have read: "at_index pat (uint (word_of_nat j :: 8 word)) = Inr x"
    using jn n by (simp add: idx at_index_nat x_def)
  define m2 where "m2 = (snd s)\<lparr>trace := trace (snd s) @ [PatternRead (int j), PatternRead (int j)]\<rparr>"
  have m2: "pattern_reads (trace m2) = pattern_reads (trace (snd s)) @ [int j, int j]"
    "ticks m2 = ticks (snd s)" "handler_runs m2 = handler_runs (snd s)"
    by (simp_all add: m2_def)
  from in_step_play_note [of x "fst s" m2] obtain st' m' where
    play: "play_note accelerationPoints x (fst s, m2) = Some (Inr (st', m'))" and
    st: "in_step m2 m'" and
    rd: "pattern_reads (trace m') = pattern_reads (trace m2)"
    by blast
  have step: "notes_loop accelerationPoints pat (word_of_nat j) s =
              notes_loop accelerationPoints pat (word_of_nat (Suc j)) (st', m')"
    using notes_loop_note [OF read x, of accelerationPoints s "(st', m')"] play
    by (simp add: idx m2_def add.commute)
  have "d = length (notes_of pat) - Suc j"
    using Suc.hyps(2) by simp
  moreover have "Suc j \<le> length (notes_of pat)"
    using jn by simp
  ultimately obtain s' where
    run: "notes_loop accelerationPoints pat (word_of_nat (Suc j)) (st', m') = Some (Inr s')" and
    rd': "pattern_reads (trace (snd s')) =
            pattern_reads (trace m')
              @ concat (map (\<lambda>i. [int i, int i]) [Suc j ..< length (notes_of pat)])
              @ [int (length (notes_of pat))]" and
    st': "in_step m' (snd s')"
    using Suc.hyps(1) [of "Suc j" "(st', m')"] by auto
  have upt: "[j ..< length (notes_of pat)] = j # [Suc j ..< length (notes_of pat)]"
    using jn by (simp add: upt_conv_Cons)
  have "pattern_reads (trace (snd s')) =
          pattern_reads (trace (snd s))
            @ concat (map (\<lambda>i. [int i, int i]) [j ..< length (notes_of pat)])
            @ [int (length (notes_of pat))]"
    unfolding upt by (simp add: rd' rd m2(1))
  moreover have "in_step (snd s) (snd s')"
    using in_step_trans [OF st st'] by (simp add: in_step_same(2) [OF m2(2,3)])
  ultimately show ?case
    unfolding step run by blast
qed

lemma patterns_ticks:
  "map (\<lambda>pat. (ticks_max (notes_of pat), ticks_min True (notes_of pat), ticks_min False (notes_of pat)))
     patterns =
   [(7255, 3246, 2870), (1002, 1001, 1000), (6001, 6000, 2124), (502, 501, 500),
    (4000, 3624, 3248), (102, 101, 100), (6001, 2125, 2124), (7708, 5824, 3948),
    (2000, 1124, 248)]"
  by (simp add: patterns_def notes_of_def ticks_max_def magnitude_def word_sless_alt)

lemma patterns_magnitudes:
  "list_all (\<lambda>pat. list_all (\<lambda>x. 0 <s magnitude x) (notes_of pat)) patterns"
  by (simp add: patterns_def notes_of_def magnitude_def word_sless_alt)

lemma patterns_ok: "list_all pattern_ok patterns"
proof -
  have "list_all (\<lambda>pat. length (notes_of pat) < length pat \<and> length (notes_of pat) < 256) patterns"
    by (simp add: patterns_def notes_of_def)
  moreover have "list_all (\<lambda>pat. ticks_max (notes_of pat) \<le> 35535 \<and>
      1 \<le> ticks_min True (notes_of pat) \<and> 1 \<le> ticks_min False (notes_of pat)) patterns"
    by (simp add: patterns_def notes_of_def ticks_max_def magnitude_def word_sless_alt)
  ultimately show ?thesis
    using patterns_magnitudes by (simp add: list_all_iff pattern_ok_def)
qed

lemma patterns_end_in_0:
  "list_all (\<lambda>pat. Suc (length (notes_of pat)) = length pat \<and> pat ! length (notes_of pat) = 0) patterns"
  by (simp add: patterns_def notes_of_def)

section \<open>The passes of a pattern, and the next pattern\<close>

lemma passes_loop_exit:
  assumes "notes_loop ap pat 0 s = Some (Inr s')" "\<not> ticks (snd s') < PATTERN_DURATION"
  shows "passes_loop ap pat s = Some (Inr s')"
  by (subst passes_loop.simps) (simp add: assms)

lemma passes_loop_again:
  assumes "notes_loop ap pat 0 s = Some (Inr s')" "ticks (snd s') < PATTERN_DURATION"
  shows "passes_loop ap pat s = passes_loop ap pat s'"
  by (subst passes_loop.simps) (simp add: assms)

lemma duration_less: "t < PATTERN_DURATION \<longleftrightarrow> unat t < 30000"
  by (simp add: PATTERN_DURATION_def word_less_nat_alt)

lemma passes_loop_run:
  assumes ok: "pattern_ok pat"
  shows "unat (ticks (snd s)) < 30000 \<Longrightarrow> handler_runs (snd s) = base + unat (ticks (snd s)) \<Longrightarrow>
         \<exists>s' p. passes_loop accelerationPoints pat s = Some (Inr s') \<and>
           passes_until_budget accelerationPoints pat base s p s' \<and>
           passes_counted accelerationPoints pat base s s' \<and>
           handler_runs (snd s') = base + unat (ticks (snd s')) \<and>
           30000 \<le> unat (ticks (snd s')) \<and>
           pattern_reads (trace (snd s')) =
             pattern_reads (trace (snd s)) @ concat (replicate (Suc p) (pass_reads pat))"
proof (induction "30000 - unat (ticks (snd s))" arbitrary: s rule: less_induct)
  case less
  from pass_run [OF ok less.prems(1)] obtain s1 where
    pass: "notes_loop accelerationPoints pat 0 s = Some (Inr s1)" and
    rd: "pattern_reads (trace (snd s1)) = pattern_reads (trace (snd s)) @ pass_reads pat" and
    adv: "unat (ticks (snd s)) < unat (ticks (snd s1))" and
    hr: "handler_runs (snd s1) + unat (ticks (snd s)) = handler_runs (snd s) + unat (ticks (snd s1))"
    by blast
  have h1: "handler_runs (snd s1) = base + unat (ticks (snd s1))"
    using hr less.prems(2) by linarith
  then have el: "handler_runs (snd s1) - base = unat (ticks (snd s1))"
    by simp
  show ?case
  proof (cases "ticks (snd s1) < PATTERN_DURATION")
    case False
    then have big: "\<not> unat (ticks (snd s1)) < 30000"
      unfolding duration_less .
    then have "passes_until_budget accelerationPoints pat base s 0 s1"
      using pass el by (intro passes_until_budget.last_pass) simp_all
    moreover have "passes_counted accelerationPoints pat base s s1"
      using pass el False by (intro passes_counted.leave) simp_all
    moreover have "pattern_reads (trace (snd s1)) =
        pattern_reads (trace (snd s)) @ concat (replicate (Suc 0) (pass_reads pat))"
      by (simp add: rd)
    moreover have "30000 \<le> unat (ticks (snd s1))"
      using big by simp
    ultimately show ?thesis
      unfolding passes_loop_exit [OF pass False] using h1 by blast
  next
    case True
    then have t1: "unat (ticks (snd s1)) < 30000"
      unfolding duration_less .
    then have "30000 - unat (ticks (snd s1)) < 30000 - unat (ticks (snd s))"
      using adv by linarith
    from less.hyps [OF this t1 h1] obtain s' p where
      run: "passes_loop accelerationPoints pat s1 = Some (Inr s')" and
      bud: "passes_until_budget accelerationPoints pat base s1 p s'" and
      cnt: "passes_counted accelerationPoints pat base s1 s'" and
      hf: "handler_runs (snd s') = base + unat (ticks (snd s'))" and
      big: "30000 \<le> unat (ticks (snd s'))" and
      rd': "pattern_reads (trace (snd s')) =
              pattern_reads (trace (snd s1)) @ concat (replicate (Suc p) (pass_reads pat))"
      by blast
    have "pattern_reads (trace (snd s')) =
            pattern_reads (trace (snd s)) @ concat (replicate (Suc (Suc p)) (pass_reads pat))"
      by (simp add: rd' rd)
    moreover have "passes_until_budget accelerationPoints pat base s (Suc p) s'"
      using pass _ bud by (rule passes_until_budget.one_more) (simp add: el t1)
    moreover have "passes_counted accelerationPoints pat base s s'"
      using pass _ True cnt by (rule passes_counted.again) (simp add: el)
    ultimately show ?thesis
      unfolding passes_loop_again [OF pass True] run using hf big by blast
  qed
qed

lemma play_pattern_run:
  assumes ok: "pattern_ok pat"
  shows "\<exists>s' p. play_pattern accelerationPoints pat (st, m) = Some (Inr s') \<and>
           passes_until_budget accelerationPoints pat (handler_runs m) (st, enter_pattern m) p s' \<and>
           passes_counted accelerationPoints pat (handler_runs m) (st, enter_pattern m) s' \<and>
           handler_runs (snd s') = handler_runs m + unat (ticks (snd s')) \<and>
           30000 \<le> unat (ticks (snd s')) \<and>
           pattern_reads (trace (snd s')) =
             pattern_reads (trace m) @ concat (replicate (Suc p) (pass_reads pat))"
proof -
  have "unat (ticks (snd (st, enter_pattern m))) < 30000"
    "handler_runs (snd (st, enter_pattern m)) = handler_runs m + unat (ticks (snd (st, enter_pattern m)))"
    by (simp_all add: enter_pattern_def)
  from passes_loop_run [OF ok this] show ?thesis
    by (auto simp: play_pattern_def enter_pattern_def)
qed

lemma index_cases:
  fixes i :: "8 word"
  assumes "i < 9"
  shows "i = 0 \<or> i = 1 \<or> i = 2 \<or> i = 3 \<or> i = 4 \<or> i = 5 \<or> i = 6 \<or> i = 7 \<or> i = 8"
proof -
  have "unat i < 9"
    using assms by (simp add: word_less_nat_alt)
  then have "unat i = 0 \<or> unat i = 1 \<or> unat i = 2 \<or> unat i = 3 \<or> unat i = 4 \<or> unat i = 5 \<or>
      unat i = 6 \<or> unat i = 7 \<or> unat i = 8"
    by linarith
  then show ?thesis
    unfolding word_unat_eq_iff by simp
qed

lemma next_index:
  fixes i :: "8 word"
  assumes "i < 9"
  shows "unat (if uint (i + 1) < int (length patterns) then i + 1 else 0) =
           (unat i + 1) mod length patterns"
    and "at_index patterns (uint i) = Inr (patterns ! unat i)"
    and "unat i < length patterns"
  using index_cases [OF assms] by (auto simp: patterns_def at_index_def)

text \<open>
  C6 (as stated) fails: entering a pattern with the counter at 12345 does not leave the
  counter alone.
\<close>

theorem enter_pattern_writes_ticks:
  "ticks (enter_pattern (mcu0\<lparr>ticks := 12345\<rparr>)) \<noteq> ticks (mcu0\<lparr>ticks := 12345\<rparr>)"
  by (simp add: enter_pattern_def)

text \<open>
  C6 (as amended). On entering a pattern the interpreter itself sets the tick counter to 0,
  which is no run of the handler and changes nothing else; no baseline is kept. Everything
  else moves the counter only by runs of the handler: the handler adds 1, writing the duty
  cycle leaves the counter alone, and over a sleep (at least one run), a fade, a note and
  a pass the counter moves by the number of runs of the handler. So, for every pattern of
  the library, the pattern is played from the entry in complete passes, at the end of each
  pass the counter is the number of ticks elapsed since the entry, and it is the counter
  that is compared with 30000 there.
\<close>

theorem ticks_reset_on_entry:
  assumes "pat \<in> set patterns"
  shows "ticks (enter_pattern m) = 0 \<and> handler_runs (enter_pattern m) = handler_runs m \<and>
         OCR0A (enter_pattern m) = OCR0A m \<and> trace (enter_pattern m) = trace m \<and>
         ticks (TIM0_OVF_vect m) = ticks m + 1 \<and>
         handler_runs (TIM0_OVF_vect m) = handler_runs m + 1 \<and>
         ticks (setPwmDutyCycle v m) = ticks m \<and>
         handler_runs (setPwmDutyCycle v m) = handler_runs m \<and>
         in_step m (sleep d m) \<and> handler_runs m < handler_runs (sleep d m) \<and>
         (\<exists>m'. fade accelerationPoints sign delay m = Some (Inr m') \<and> in_step m m') \<and>
         (\<exists>st' m'. play_note accelerationPoints x (st, m) = Some (Inr (st', m')) \<and> in_step m m') \<and>
         (\<exists>s'. notes_loop accelerationPoints pat 0 (st, m) = Some (Inr s') \<and> in_step m (snd s')) \<and>
         (\<exists>s'. play_pattern accelerationPoints pat (st, m) = Some (Inr s') \<and>
            passes_counted accelerationPoints pat (handler_runs m) (st, enter_pattern m) s' \<and>
            unat (ticks (snd s')) = handler_runs (snd s') - handler_runs m \<and>
            PATTERN_DURATION \<le> ticks (snd s'))"
proof -
  have ok: "pattern_ok pat"
    using patterns_ok assms by (simp add: list_all_iff)
  then have n: "length (notes_of pat) < length pat" "length (notes_of pat) < 256"
    by (simp_all add: pattern_ok_def)
  have ent: "ticks (enter_pattern m) = 0 \<and> handler_runs (enter_pattern m) = handler_runs m \<and>
         OCR0A (enter_pattern m) = OCR0A m \<and> trace (enter_pattern m) = trace m"
    by (simp add: enter_pattern_def)
  have hnd: "ticks (TIM0_OVF_vect m) = ticks m + 1 \<and>
         handler_runs (TIM0_OVF_vect m) = handler_runs m + 1"
    by (simp add: TIM0_OVF_vect_def)
  have pwm: "ticks (setPwmDutyCycle v m) = ticks m \<and>
         handler_runs (setPwmDutyCycle v m) = handler_runs m"
    by simp
  have slp: "in_step m (sleep d m) \<and> handler_runs m < handler_runs (sleep d m)"
    by (simp add: in_step_sleep) (simp add: sleep_eq)
  have nte: "\<exists>st' m'. play_note accelerationPoints x (st, m) = Some (Inr (st', m')) \<and> in_step m m'"
    using in_step_play_note [of x st m] by blast
  have pss: "\<exists>s'. notes_loop accelerationPoints pat 0 (st, m) = Some (Inr s') \<and> in_step m (snd s')"
    using notes_loop_reads [OF n, of 0 "(st, m)"] by auto
  from play_pattern_run [OF ok, of st m] obtain s' p where
    play: "play_pattern accelerationPoints pat (st, m) = Some (Inr s')" and
    cnt: "passes_counted accelerationPoints pat (handler_runs m) (st, enter_pattern m) s'" and
    hf: "handler_runs (snd s') = handler_runs m + unat (ticks (snd s'))" and
    big: "30000 \<le> unat (ticks (snd s'))"
    by blast
  have "unat (ticks (snd s')) = handler_runs (snd s') - handler_runs m"
    using hf by simp
  moreover have "PATTERN_DURATION \<le> ticks (snd s')"
    using big duration_less [of "ticks (snd s')"] by auto
  ultimately have ply: "\<exists>s'. play_pattern accelerationPoints pat (st, m) = Some (Inr s') \<and>
            passes_counted accelerationPoints pat (handler_runs m) (st, enter_pattern m) s' \<and>
            unat (ticks (snd s')) = handler_runs (snd s') - handler_runs m \<and>
            PATTERN_DURATION \<le> ticks (snd s')"
    using play cnt by blast
  show ?thesis
    using ent hnd pwm slp in_step_fade [of sign delay m] nte pss ply by blast
qed

theorem ticks_reset_on_entry_witness:
  "ticks (enter_pattern mcu0) = 0 \<and>
   (\<exists>s'. play_pattern accelerationPoints [1, 500, - 1, - 500, 0] (False, mcu0) = Some (Inr s') \<and>
      passes_counted accelerationPoints [1, 500, - 1, - 500, 0] 0 (False, enter_pattern mcu0) s' \<and>
      unat (ticks (snd s')) = handler_runs (snd s'))"
proof -
  have "[1, 500, - 1, - 500, 0] \<in> set patterns"
    by (simp add: patterns_def)
  moreover have "handler_runs mcu0 = 0"
    by (simp add: mcu0_def)
  ultimately show ?thesis
    using ticks_reset_on_entry [of "[1, 500, - 1, - 500, 0]" mcu0 0 1 True 128 1 False]
    by auto
qed

text \<open>
  C7. Whatever the state and the machine, the step of the main loop at a pattern index
  \<open>i\<close> below 9 returns. On entry the counter is set to 0, which is no run of the handler.
  Pattern \<open>i\<close> is then played in complete passes and left after the first pass at whose
  end 30000 ticks or more have elapsed since the entry, as runs of the handler count
  them, not before and not in the middle of a pass; there the counter is the number of
  those ticks. The index played next is \<open>i + 1\<close>, or 0 after the last pattern, again below
  9: so the patterns are played in a cycle without end.
\<close>

theorem main_step_next_pattern:
  assumes "i < 9"
  shows "\<exists>i' s' p. main_step patterns accelerationPoints (i, st, m) = Some (Inr (i', s')) \<and>
           unat i' = (unat i + 1) mod length patterns \<and> i' < 9 \<and>
           ticks (enter_pattern m) = 0 \<and> handler_runs (enter_pattern m) = handler_runs m \<and>
           passes_until_budget accelerationPoints (patterns ! unat i) (handler_runs m)
             (st, enter_pattern m) p s' \<and>
           30000 \<le> handler_runs (snd s') - handler_runs m \<and>
           unat (ticks (snd s')) = handler_runs (snd s') - handler_runs m \<and>
           pattern_reads (trace (snd s')) =
             pattern_reads (trace m) @ concat (replicate (Suc p) (pass_reads (patterns ! unat i)))"
proof -
  note idx = next_index [OF assms]
  have "pattern_ok (patterns ! unat i)"
    using patterns_ok idx(3) by (simp add: list_all_length)
  from play_pattern_run [OF this, of st m] obtain s' p where
    play: "play_pattern accelerationPoints (patterns ! unat i) (st, m) = Some (Inr s')" and
    bud: "passes_until_budget accelerationPoints (patterns ! unat i) (handler_runs m)
            (st, enter_pattern m) p s'" and
    hf: "handler_runs (snd s') = handler_runs m + unat (ticks (snd s'))" and
    big: "30000 \<le> unat (ticks (snd s'))" and
    rd: "pattern_reads (trace (snd s')) =
           pattern_reads (trace m) @ concat (replicate (Suc p) (pass_reads (patterns ! unat i)))"
    by blast
  define i' where "i' = (if uint (i + 1) < int (length patterns) then i + 1 else 0)"
  have step: "main_step patterns accelerationPoints (i, st, m) = Some (Inr (i', s'))"
    by (simp add: main_step_def idx(2) play i'_def)
  have nxt: "unat i' = (unat i + 1) mod length patterns"
    using idx(1) by (simp add: i'_def)
  have "length patterns = 9"
    by (simp add: patterns_def)
  then have "unat i' < 9"
    using nxt by simp
  then have lt: "i' < 9"
    by (simp add: word_less_nat_alt)
  have el: "unat (ticks (snd s')) = handler_runs (snd s') - handler_runs m"
    using hf by simp
  have big': "30000 \<le> handler_runs (snd s') - handler_runs m"
    using big hf by simp
  have ent: "ticks (enter_pattern m) = 0" "handler_runs (enter_pattern m) = handler_runs m"
    by (simp_all add: enter_pattern_def)
  show ?thesis
    using step nxt lt ent bud big' el rd by blast
qed

theorem main_step_next_pattern_witness:
  "\<exists>s' p. main_step patterns accelerationPoints (8, False, mcu0) = Some (Inr (0, s')) \<and>
     passes_until_budget accelerationPoints (patterns ! 8) 0 (False, enter_pattern mcu0) p s' \<and>
     30000 \<le> handler_runs (snd s') \<and> unat (ticks (snd s')) = handler_runs (snd s')"
proof -
  have "(8 :: uint8_t) < 9"
    by simp
  from main_step_next_pattern [OF this, of False mcu0] obtain i' s' p where
    "main_step patterns accelerationPoints (8, False, mcu0) = Some (Inr (i', s'))"
    "unat i' = (unat (8 :: uint8_t) + 1) mod length patterns"
    "passes_until_budget accelerationPoints (patterns ! unat (8 :: uint8_t)) (handler_runs mcu0)
       (False, enter_pattern mcu0) p s'"
    "30000 \<le> handler_runs (snd s') - handler_runs mcu0"
    "unat (ticks (snd s')) = handler_runs (snd s') - handler_runs mcu0"
    by blast
  moreover have "length patterns = 9" "handler_runs mcu0 = 0"
    by (simp_all add: patterns_def mcu0_def)
  ultimately show ?thesis
    by (auto simp: unat_eq_0)
qed

text \<open>
  C8. For every pattern of the library, from every state and machine, a pass returns
  without an error; the indices it reads are those of the notes before the first 0 of the
  pattern, in order, and then the index of that 0, which is the last element of the
  pattern: no read is outside the pattern, and none follows the 0.
\<close>

theorem pass_stops_at_sentinel:
  assumes "pat \<in> set patterns"
  shows "\<exists>s'. notes_loop accelerationPoints pat 0 s = Some (Inr s') \<and>
           pattern_reads (trace (snd s')) = pattern_reads (trace (snd s)) @ pass_reads pat \<and>
           Suc (length (notes_of pat)) = length pat \<and> pat ! length (notes_of pat) = 0 \<and>
           list_all (\<lambda>i. 0 \<le> i \<and> i \<le> int (length (notes_of pat))) (pass_reads pat) \<and>
           last (pass_reads pat) = int (length (notes_of pat))"
proof -
  have ends: "Suc (length (notes_of pat)) = length pat" "pat ! length (notes_of pat) = 0"
    using patterns_end_in_0 assms by (simp_all add: list_all_iff)
  have "length pat < 256"
    using assms by (auto simp: patterns_def)
  with ends(1) have n: "length (notes_of pat) < length pat" "length (notes_of pat) < 256"
    by simp_all
  from notes_loop_reads [OF n, of 0 s] obtain s' where
    "notes_loop accelerationPoints pat 0 s = Some (Inr s')"
    "pattern_reads (trace (snd s')) = pattern_reads (trace (snd s)) @ pass_reads pat"
    by (auto simp: pass_reads_def)
  moreover have "list_all (\<lambda>i. 0 \<le> i \<and> i \<le> int (length (notes_of pat))) (pass_reads pat)"
    by (auto simp: pass_reads_def list_all_iff)
  moreover have "last (pass_reads pat) = int (length (notes_of pat))"
    by (simp add: pass_reads_def)
  ultimately show ?thesis
    using ends by blast
qed

theorem pass_stops_at_sentinel_witness:
  "\<exists>s'. notes_loop accelerationPoints [1, 500, - 1, - 500, 0] 0 (False, mcu0) = Some (Inr s') \<and>
     pattern_reads (trace (snd s')) = [0, 0, 1, 1, 2, 2, 3, 3, 4]"
proof -
  have "[1, 500, - 1, - 500, 0] \<in> set patterns"
    by (simp add: patterns_def)
  from pass_stops_at_sentinel [OF this, of "(False, mcu0)"] show ?thesis
    by (simp add: pass_reads_def notes_of_def mcu0_def upt_rec)
qed

end
